theory Spec2Isabelle
  imports Main "HOL-Library.Multiset" "HOL-Library.List_Lexorder" "HOL-Library.Char_ord"
    "HOL-Library.Sublist"
begin

section \<open>Errors and outcomes\<close>

text \<open>
  Every \<^verbatim>\<open>throw new Error(...)\<close> of the sources is a constructor of \<open>error\<close>. An
  operation that mutates an object either returns normally (\<open>Ok\<close>, with the object as it
  is then) or throws (\<open>Threw\<close>, with the error and the object as it is at the throw:
  mutations are not rolled back by an exception).
\<close>

datatype error =
    CircularDependency "string list" string
  | MissingDependency string string
  | AlreadyRegistered string
  | InvalidSingleCondition "string list"
  | UnknownConditionType string

datatype 's outcome = Ok 's | Threw error 's

section \<open>The loader: types.ts, registry.ts and the Loader class\<close>

text \<open>
  \<^verbatim>\<open>type Dependency = { name: string; optional?: boolean }\<close>: an absent
  \<^verbatim>\<open>optional\<close> is falsy, hence \<open>False\<close>.
\<close>

datatype Dependency = Dependency (dep_name: string) (optional: bool)

text \<open>
  \<^verbatim>\<open>type Plugin\<close> of types.ts. \<^verbatim>\<open>exports\<close> is opaque data the loader never
  reads and is left out. The hooks are opaque callbacks: \<open>init\<close> is what
  \<^verbatim>\<open>init(loader)\<close> returns (a message, or \<open>None\<close> for void), \<open>afterInitAll\<close> is
  \<open>None\<close> when the optional hook is absent.
\<close>

record Plugin =
  name :: string
  version :: string
  dependsOn :: "Dependency list option"
  init :: "string option"
  afterInitAll :: "string option option"

text \<open>\<^verbatim>\<open>if (p.dependsOn) for (const dep of p.dependsOn)\<close>: no list, no iteration.\<close>

definition deps :: "Plugin \<Rightarrow> Dependency list" where
  "deps p = (case dependsOn p of None \<Rightarrow> [] | Some ds \<Rightarrow> ds)"

text \<open>
  registry.ts: \<^verbatim>\<open>Map<string, Plugin>\<close>, kept as the list of its entries in insertion
  order (the order \<^verbatim>\<open>values()\<close> iterates in).
\<close>

type_synonym Registry = "(string \<times> Plugin) list"

definition registry_register :: "Plugin \<Rightarrow> Registry \<Rightarrow> Registry outcome" where
  "registry_register plugin reg =
     (if name plugin \<in> fst ` set reg then Threw (AlreadyRegistered (name plugin)) reg
      else Ok (reg @ [(name plugin, plugin)]))"

definition registry_all :: "Registry \<Rightarrow> Plugin list" where
  "registry_all reg = map snd reg"

fun registerPlugins :: "Plugin list \<Rightarrow> Registry \<Rightarrow> Registry outcome" where
  "registerPlugins [] reg = Ok reg"
| "registerPlugins (p # ps) reg =
     (case registry_register p reg of
        Threw e reg' \<Rightarrow> Threw e reg'
      | Ok reg' \<Rightarrow> registerPlugins ps reg')"

text \<open>
  What the loader does to the outside world, in order: console lines (without the colour
  escapes) and hook calls.
\<close>

datatype effect =
    WarnOptionalSkipped string string
  | LogInitializing string
  | LogStarting string
  | LogMessage string
  | InitCalled string
  | AfterInitAllCalled string

text \<open>
  The mutable locals of \<^verbatim>\<open>sortByDependencies\<close>: the set \<^verbatim>\<open>visited\<close>, the array
  \<^verbatim>\<open>sorted\<close>, and the warnings written so far.
\<close>

record sort_state =
  visited :: "string set"
  sorted_out :: "Plugin list"
  warnings :: "effect list"

text \<open>
  The closure \<^verbatim>\<open>visit\<close> and its loop over \<^verbatim>\<open>p.dependsOn\<close>. The source pushes on and
  pops off one shared \<^verbatim>\<open>stack\<close> array; on a normal return the array is as it was at
  the call, so the model passes the stack by value.
\<close>

function visit :: "Plugin list \<Rightarrow> Plugin \<Rightarrow> string list \<Rightarrow> sort_state \<Rightarrow> sort_state outcome"
  and visit_deps ::
    "Plugin list \<Rightarrow> Plugin \<Rightarrow> Dependency list \<Rightarrow> string list \<Rightarrow> sort_state \<Rightarrow> sort_state outcome"
where
  "visit plugins p stack st =
     (if name p \<in> visited st then Ok st
      else if name p \<in> set stack then Threw (CircularDependency stack (name p)) st
      else (case visit_deps plugins p (deps p) (stack @ [name p]) st of
              Threw e st' \<Rightarrow> Threw e st'
            | Ok st' \<Rightarrow>
                Ok (st'\<lparr>visited := insert (name p) (visited st'),
                        sorted_out := sorted_out st' @ [p]\<rparr>)))"
| "visit_deps plugins p [] stack st = Ok st"
| "visit_deps plugins p (dep # rest) stack st =
     (case find (\<lambda>x. name x = dep_name dep) plugins of
        None \<Rightarrow>
          if optional dep
          then visit_deps plugins p rest stack
                 (st\<lparr>warnings := warnings st @ [WarnOptionalSkipped (dep_name dep) (name p)]\<rparr>)
          else Threw (MissingDependency (name p) (dep_name dep)) st
      | Some foundDep \<Rightarrow>
          (case visit plugins foundDep stack st of
             Threw e st' \<Rightarrow> Threw e st'
           | Ok st' \<Rightarrow> visit_deps plugins p rest stack st'))"
  by pat_completeness auto
termination
proof (relation "inv_image (less_than <*lex*> less_than)
    (\<lambda>x. case x of
        Inl (ps, p, stack, st) \<Rightarrow> (card (insert (name p) (name ` set ps) - set stack), 0)
      | Inr (ps, p, ds, stack, st) \<Rightarrow> (card (name ` set ps - set stack), Suc (length ds)))",
    goal_cases)
  case 1
  show ?case by (intro wf_inv_image wf_lex_prod wf_less_than)
next
  case (2 plugins p stack st)
  have "name ` set plugins - set (stack @ [name p])
          \<subset> insert (name p) (name ` set plugins) - set stack"
    using 2 by auto
  then have "card (name ` set plugins - set (stack @ [name p]))
          < card (insert (name p) (name ` set plugins) - set stack)"
    by (intro psubset_card_mono) auto
  then show ?case by simp
next
  case (3 plugins p dep rest stack st)
  show ?case by simp
next
  case (4 plugins p dep rest stack st foundDep)
  then have "foundDep \<in> set plugins"
    by (auto simp: find_Some_iff)
  then have "insert (name foundDep) (name ` set plugins) = name ` set plugins"
    by auto
  then show ?case by simp
next
  case (5 plugins p dep rest stack st foundDep st')
  show ?case by simp
qed

fun visit_all :: "Plugin list \<Rightarrow> Plugin list \<Rightarrow> sort_state \<Rightarrow> sort_state outcome" where
  "visit_all plugins [] st = Ok st"
| "visit_all plugins (plugin # rest) st =
     (case visit plugins plugin [] st of
        Threw e st' \<Rightarrow> Threw e st'
      | Ok st' \<Rightarrow> visit_all plugins rest st')"

definition sortByDependencies :: "Plugin list \<Rightarrow> sort_state outcome" where
  "sortByDependencies plugins =
     visit_all plugins plugins \<lparr>visited = {}, sorted_out = [], warnings = []\<rparr>"

text \<open>\<^verbatim>\<open>message && console.log("  " + message)\<close>: void and the empty string print nothing.\<close>

definition log_message :: "string option \<Rightarrow> effect list" where
  "log_message message =
     (case message of None \<Rightarrow> [] | Some m \<Rightarrow> if m = [] then [] else [LogMessage m])"

definition init_plugin :: "Plugin \<Rightarrow> effect list" where
  "init_plugin plugin =
     [LogInitializing (name plugin), InitCalled (name plugin)] @ log_message (init plugin)"

definition afterInitAll_plugin :: "Plugin \<Rightarrow> effect list" where
  "afterInitAll_plugin plugin =
     (case afterInitAll plugin of
        None \<Rightarrow> []
      | Some message \<Rightarrow>
          [LogStarting (name plugin), AfterInitAllCalled (name plugin)] @ log_message message)"

text \<open>
  \<^verbatim>\<open>Loader.start\<close>: the result is the list of effects, in order, and whether the call
  returned or threw.
\<close>

definition start :: "Registry \<Rightarrow> effect list outcome" where
  "start reg =
     (case sortByDependencies (registry_all reg) of
        Threw e st \<Rightarrow> Threw e (warnings st)
      | Ok st \<Rightarrow>
          Ok (warnings st
              @ concat (map init_plugin (sorted_out st))
              @ concat (map afterInitAll_plugin (rev (sorted_out st)))))"

text \<open>\<^verbatim>\<open>new Loader(config, plugins).start()\<close>.\<close>

definition Loader_start :: "Plugin list \<Rightarrow> effect list outcome" where
  "Loader_start plugins =
     (case registerPlugins plugins [] of
        Threw e reg \<Rightarrow> Threw e []
      | Ok reg \<Rightarrow> start reg)"

subsection \<open>Notions used to state the resolver's properties\<close>

text \<open>
  The edges of the dependency graph: \<open>(p, d)\<close> when the plugin named \<open>p\<close> declares a
  dependency named \<open>d\<close> that is present in the supplied list (required or optional).
\<close>

definition dep_edges :: "Plugin list \<Rightarrow> (string \<times> string) list" where
  "dep_edges ps =
     concat (map (\<lambda>p. map (\<lambda>d. (name p, dep_name d))
                          (filter (\<lambda>d. dep_name d \<in> name ` set ps) (deps p))) ps)"

definition dep_rel :: "Plugin list \<Rightarrow> (string \<times> string) set" where
  "dep_rel ps = set (dep_edges ps)"

text \<open>\<open>precedes a b xs\<close>: \<open>b\<close> occurs in \<open>xs\<close> after the first occurrence of \<open>a\<close>.\<close>

fun precedes :: "'a \<Rightarrow> 'a \<Rightarrow> 'a list \<Rightarrow> bool" where
  "precedes a b [] = False"
| "precedes a b (x # xs) = (if x = a then b \<in> set xs else precedes a b xs)"

text \<open>
  The invariant of the traversal: \<open>visited\<close> holds the names of \<open>sorted\<close>, which are
  distinct plugins of the input, and every plugin in \<open>sorted\<close> has each present
  dependency before it, each absent one being optional and warned about.
\<close>

definition sort_inv :: "Plugin list \<Rightarrow> sort_state \<Rightarrow> bool" where
  "sort_inv ps st \<longleftrightarrow>
     visited st = name ` set (sorted_out st) \<and>
     set (sorted_out st) \<subseteq> set ps \<and>
     distinct (map name (sorted_out st)) \<and>
     (\<forall>i < length (sorted_out st). \<forall>d \<in> set (deps (sorted_out st ! i)).
        if dep_name d \<in> name ` set ps
        then dep_name d \<in> name ` set (take i (sorted_out st))
        else optional d \<and>
             WarnOptionalSkipped (dep_name d) (name (sorted_out st ! i)) \<in> set (warnings st))"

text \<open>The object an operation leaves behind, whether it returned or threw.\<close>

fun state_of :: "'s outcome \<Rightarrow> 's" where
  "state_of (Ok s) = s"
| "state_of (Threw e s) = s"

text \<open>
  \<open>missing_error ps e\<close>: \<open>e\<close> is the missing-dependency error of some plugin of \<open>ps\<close>
  for one of its required dependencies that is absent from \<open>ps\<close>.
\<close>

definition missing_error :: "Plugin list \<Rightarrow> error \<Rightarrow> bool" where
  "missing_error ps e \<longleftrightarrow>
     (\<exists>q \<in> set ps. \<exists>d \<in> set (deps q).
        \<not> optional d \<and> dep_name d \<notin> name ` set ps \<and>
        e = MissingDependency (name q) (dep_name d))"

text \<open>The hook calls among the effects of a run, in order.\<close>

definition init_calls :: "effect list \<Rightarrow> string list" where
  "init_calls effs = concat (map (\<lambda>e. case e of InitCalled n \<Rightarrow> [n] | _ \<Rightarrow> []) effs)"

definition afterInitAll_calls :: "effect list \<Rightarrow> string list" where
  "afterInitAll_calls effs =
     concat (map (\<lambda>e. case e of AfterInitAllCalled n \<Rightarrow> [n] | _ \<Rightarrow> []) effs)"

text \<open>The three plugins of the end-to-end example, each with both hooks.\<close>

definition Config :: Plugin where
  "Config = \<lparr>name = ''Config'', version = ''1.0.0'', dependsOn = None,
             init = None, afterInitAll = Some None\<rparr>"

definition Database :: Plugin where
  "Database = \<lparr>name = ''Database'', version = ''1.0.0'',
               dependsOn = Some [Dependency ''Config'' False],
               init = None, afterInitAll = Some None\<rparr>"

definition Api :: Plugin where
  "Api = \<lparr>name = ''Api'', version = ''1.0.0'',
          dependsOn = Some [Dependency ''Config'' False, Dependency ''Database'' False],
          init = Some ''listening'', afterInitAll = Some None\<rparr>"

text \<open>A plugin that depends on nothing and on which nothing depends.\<close>

definition Logger :: Plugin where
  "Logger = \<lparr>name = ''Logger'', version = ''1.0.0'', dependsOn = None,
             init = None, afterInitAll = None\<rparr>"

text \<open>
  Plugins for the missing-dependency examples: two that require each other, one that
  requires a plugin nobody supplies, and a Database whose dependency on Config is optional.
\<close>

definition plugin_a :: Plugin where
  "plugin_a = \<lparr>name = ''a'', version = ''1.0.0'', dependsOn = Some [Dependency ''b'' False],
               init = None, afterInitAll = None\<rparr>"

definition plugin_b :: Plugin where
  "plugin_b = \<lparr>name = ''b'', version = ''1.0.0'', dependsOn = Some [Dependency ''a'' False],
               init = None, afterInitAll = None\<rparr>"

definition plugin_c :: Plugin where
  "plugin_c = \<lparr>name = ''c'', version = ''1.0.0'',
               dependsOn = Some [Dependency ''missing'' False],
               init = None, afterInitAll = None\<rparr>"

definition Database_opt :: Plugin where
  "Database_opt = \<lparr>name = ''Database'', version = ''1.0.0'',
                   dependsOn = Some [Dependency ''Config'' True],
                   init = None, afterInitAll = Some None\<rparr>"

section \<open>The event bus and the registry of mod.ts\<close>

text \<open>
  \<^verbatim>\<open>type ConditionType = "single" | "any" | "all"\<close>; \<open>Unknown\<close> stands for any other
  value that reaches the \<^verbatim>\<open>default\<close> branch of \<^verbatim>\<open>on\<close> at run time.
\<close>

datatype ConditionType = Single | AnyOf | AllOf | Unknown string

text \<open>
  A listener is a callback that may call back into the bus. Its behaviour is given by a
  small program: it can \<^verbatim>\<open>emit\<close>, subscribe with \<^verbatim>\<open>on\<close>, and branch on whether an
  event has fired (\<^verbatim>\<open>events.get(ev)?.fired\<close>; \<open>Events\<close> is a \<^verbatim>\<open>Map\<close>). \<open>lid\<close>
  identifies the callback in the trace. The plugin table a listener receives is not
  modelled: no claim depends on it.
\<close>

datatype stmt =
    Emit string
  | On ConditionalTrigger
  | IfFired string "stmt list" "stmt list"
and ConditionalTrigger =
    ConditionalTrigger (condition: ConditionType) (events: "string list") (listener: Listener)
and Listener =
    Listener (lid: nat) (body: "stmt list")

text \<open>A value of the map \<^verbatim>\<open>Map<string, { listeners: Listener[]; fired: boolean }>\<close>.\<close>

record entry =
  listeners :: "Listener list"
  fired :: bool

text \<open>
  What the bus and the registry do, in order: the two \<^verbatim>\<open>console.debug\<close> lines of
  \<^verbatim>\<open>emit\<close>, a listener called by \<^verbatim>\<open>emit\<close> for an event (with the listener's
  \<open>lid\<close>), a listener called by \<^verbatim>\<open>checkConditionalTriggers\<close> for a key, and the two
  plugin hooks.
\<close>

datatype bus_effect =
    DebugEmitting string
  | DebugSkipping string
  | SingleCall string nat
  | TriggerCall string nat
  | RegisterCalled string
  | InitializeCalled string

text \<open>
  The \<^verbatim>\<open>Events\<close> object: the map it extends (\<open>entries\<close>), the private map
  \<^verbatim>\<open>conditionalTriggers\<close>, and the trace. \<^verbatim>\<open>conditionalTriggers\<close> is iterated while
  it is changed, so it is kept as ECMAScript specifies a Map: a list of entries in
  insertion order in which \<^verbatim>\<open>delete\<close> leaves a hole (\<open>None\<close>), \<^verbatim>\<open>set\<close> replaces the
  value of a live key in place or appends, and an iterator is an index into the list.
\<close>

record Events =
  entries :: "string \<Rightarrow> entry option"
  conditionalTriggers :: "(string \<times> ConditionalTrigger) option list"
  trace :: "bus_effect list"

text \<open>
  Operations on the bus may not return (a listener can re-enter the bus without end): they
  take fuel, and \<open>None\<close> is the run that has not returned within it. Fuel is used up by
  calling a listener, so it bounds the nesting of listener calls, and by each trigger
  fired in one sweep of \<^verbatim>\<open>checkConditionalTriggers\<close>.
\<close>

definition and_then :: "'s outcome option \<Rightarrow> ('s \<Rightarrow> 's outcome option) \<Rightarrow> 's outcome option" where
  "and_then r f = (case r of None \<Rightarrow> None | Some (Threw e s) \<Rightarrow> Some (Threw e s) | Some (Ok s) \<Rightarrow> f s)"

lemma and_then_cong [fundef_cong]:
  "r = r' \<Longrightarrow> (\<And>s. r' = Some (Ok s) \<Longrightarrow> f s = f' s) \<Longrightarrow> and_then r f = and_then r' f'"
  by (auto simp: and_then_def split: option.splits outcome.splits)

text \<open>\<^verbatim>\<open>this.get(event) ?? { listeners: [], fired: false }\<close> and \<^verbatim>\<open>this.get(ev)?.fired\<close>.\<close>

definition get_entry :: "Events \<Rightarrow> string \<Rightarrow> entry" where
  "get_entry b event =
     (case entries b event of None \<Rightarrow> \<lparr>listeners = [], fired = False\<rparr> | Some target \<Rightarrow> target)"

definition is_fired :: "Events \<Rightarrow> string \<Rightarrow> bool" where
  "is_fired b ev = (case entries b ev of None \<Rightarrow> False | Some target \<Rightarrow> fired target)"

text \<open>\<^verbatim>\<open>Map.prototype.set\<close> and \<^verbatim>\<open>Map.prototype.delete\<close> on the list of entries.\<close>

fun map_set :: "'k \<Rightarrow> 'v \<Rightarrow> ('k \<times> 'v) option list \<Rightarrow> ('k \<times> 'v) option list" where
  "map_set k v [] = [Some (k, v)]"
| "map_set k v (None # rest) = None # map_set k v rest"
| "map_set k v (Some (k', v') # rest) =
     (if k' = k then Some (k, v) # rest else Some (k', v') # map_set k v rest)"

fun map_delete :: "'k \<Rightarrow> ('k \<times> 'v) option list \<Rightarrow> ('k \<times> 'v) option list" where
  "map_delete k [] = []"
| "map_delete k (None # rest) = None # map_delete k rest"
| "map_delete k (Some (k', v') # rest) =
     (if k' = k then None # rest else Some (k', v') # map_delete k rest)"

text \<open>
  \<^verbatim>\<open>buildConditionalKey\<close>: the condition, a colon, and the sorted event names joined by
  commas. \<^verbatim>\<open>sort()\<close> orders strings by code units, here by the order on \<open>char list\<close>.
\<close>

fun join :: "string \<Rightarrow> string list \<Rightarrow> string" where
  "join sep [] = []"
| "join sep [x] = x"
| "join sep (x # y # rest) = x @ sep @ join sep (y # rest)"

fun condition_name :: "ConditionType \<Rightarrow> string" where
  "condition_name Single = ''single''"
| "condition_name AnyOf = ''any''"
| "condition_name AllOf = ''all''"
| "condition_name (Unknown s) = s"

definition buildConditionalKey :: "ConditionType \<Rightarrow> string list \<Rightarrow> string" where
  "buildConditionalKey cond evs = condition_name cond @ '':'' @ join '','' (sort evs)"

text \<open>The \<^verbatim>\<open>switch\<close> of \<^verbatim>\<open>checkConditionalTriggers\<close>: \<^verbatim>\<open>every\<close> for all, \<^verbatim>\<open>some\<close> for any.\<close>

definition shouldTrigger :: "Events \<Rightarrow> ConditionalTrigger \<Rightarrow> bool" where
  "shouldTrigger b t =
     (case condition t of
        AllOf \<Rightarrow> list_all (is_fired b) (events t)
      | AnyOf \<Rightarrow> list_ex (is_fired b) (events t)
      | _ \<Rightarrow> False)"

definition log_effect :: "bus_effect \<Rightarrow> Events \<Rightarrow> Events" where
  "log_effect x b = b\<lparr>trace := trace b @ [x]\<rparr>"

text \<open>
  The four writes of the bus. \<^verbatim>\<open>this.set(event, { ...target, fired: true })\<close>: the
  spread keeps the reference to the listeners array of \<open>target\<close>, which every entry
  stored for the event shares, so listeners pushed since \<open>target\<close> was read are in it;
  when the event has no entry, \<open>target\<close> is the fresh object with its own array.
  \<^verbatim>\<open>target.listeners.push(listener); this.set(events[0], target)\<close>;
  \<^verbatim>\<open>this.conditionalTriggers.set(key, trigger)\<close>; \<^verbatim>\<open>this.conditionalTriggers.delete(key)\<close>.
\<close>

definition mark_fired :: "string \<Rightarrow> entry \<Rightarrow> Events \<Rightarrow> Events" where
  "mark_fired event target b =
     b\<lparr>entries := (entries b)
          (event \<mapsto> \<lparr>listeners = (case entries b event of
                                     None \<Rightarrow> listeners target
                                   | Some t \<Rightarrow> listeners t),
                      fired = True\<rparr>)\<rparr>"

definition push_listener :: "string \<Rightarrow> Listener \<Rightarrow> Events \<Rightarrow> Events" where
  "push_listener ev l b =
     b\<lparr>entries := (entries b)
          (ev \<mapsto> (get_entry b ev)\<lparr>listeners := listeners (get_entry b ev) @ [l]\<rparr>)\<rparr>"

definition set_trigger :: "string \<Rightarrow> ConditionalTrigger \<Rightarrow> Events \<Rightarrow> Events" where
  "set_trigger key trigger b =
     b\<lparr>conditionalTriggers := map_set key trigger (conditionalTriggers b)\<rparr>"

definition delete_trigger :: "string \<Rightarrow> Events \<Rightarrow> Events" where
  "delete_trigger key b = b\<lparr>conditionalTriggers := map_delete key (conditionalTriggers b)\<rparr>"

text \<open>
  \<^verbatim>\<open>emit\<close>, \<^verbatim>\<open>on\<close> and \<^verbatim>\<open>checkConditionalTriggers\<close> (with the iterator's index), the
  \<^verbatim>\<open>forEach\<close> over an event's listeners, the call of one listener, and the run of a
  listener's program. \<^verbatim>\<open>forEach\<close> reads the array's length once, so it visits the
  listeners present when it starts.
\<close>

function emit :: "nat \<Rightarrow> string \<Rightarrow> Events \<Rightarrow> Events outcome option"
  and on :: "nat \<Rightarrow> ConditionalTrigger \<Rightarrow> Events \<Rightarrow> Events outcome option"
  and checkConditionalTriggers :: "nat \<Rightarrow> nat \<Rightarrow> Events \<Rightarrow> Events outcome option"
  and forEach_listener :: "nat \<Rightarrow> string \<Rightarrow> Listener list \<Rightarrow> Events \<Rightarrow> Events outcome option"
  and call :: "nat \<Rightarrow> bus_effect \<Rightarrow> Listener \<Rightarrow> Events \<Rightarrow> Events outcome option"
  and run :: "nat \<Rightarrow> stmt list \<Rightarrow> Events \<Rightarrow> Events outcome option"
  and exec :: "nat \<Rightarrow> stmt \<Rightarrow> Events \<Rightarrow> Events outcome option"
where
  "emit n event b =
     (if fired (get_entry b event) then Some (Ok (log_effect (DebugSkipping event) b))
      else
        and_then (forEach_listener n event (listeners (get_entry b event))
                    (log_effect (DebugEmitting event) b))
          (\<lambda>b1. checkConditionalTriggers n 0 (mark_fired event (get_entry b event) b1)))"
| "on n trigger b =
     (case condition trigger of
        Single \<Rightarrow>
          (case events trigger of
             [ev] \<Rightarrow> checkConditionalTriggers n 0 (push_listener ev (listener trigger) b)
           | _ \<Rightarrow> Some (Threw (InvalidSingleCondition (events trigger)) b))
      | Unknown c \<Rightarrow> Some (Threw (UnknownConditionType c) b)
      | _ \<Rightarrow>
          checkConditionalTriggers n 0
            (set_trigger (buildConditionalKey (condition trigger) (events trigger)) trigger b))"
| "checkConditionalTriggers n i b =
     (if i < length (conditionalTriggers b) then
        (case conditionalTriggers b ! i of
           None \<Rightarrow> checkConditionalTriggers n (Suc i) b
         | Some (key, t) \<Rightarrow>
             if shouldTrigger b t then
               (case n of
                  0 \<Rightarrow> None
                | Suc m \<Rightarrow>
                    and_then (call n (TriggerCall key (lid (listener t))) (listener t) b)
                      (\<lambda>b1. checkConditionalTriggers m (Suc i) (delete_trigger key b1)))
             else checkConditionalTriggers n (Suc i) b)
      else Some (Ok b))"
| "forEach_listener n event [] b = Some (Ok b)"
| "forEach_listener n event (l # ls) b =
     and_then (call n (SingleCall event (lid l)) l b) (forEach_listener n event ls)"
| "call 0 x l b = None"
| "call (Suc n) x l b = run n (body l) (log_effect x b)"
| "run n [] b = Some (Ok b)"
| "run n (s # ss) b = and_then (exec n s b) (run n ss)"
| "exec n (Emit event) b = emit n event b"
| "exec n (On trigger) b = on n trigger b"
| "exec n (IfFired ev thn els) b = run n (if is_fired b ev then thn else els) b"
  by pat_completeness auto
termination
  by (relation "inv_image (less_than <*lex*> less_than <*lex*> less_than)
      (\<lambda>x. case x of
          Inl (Inl (n, event, b)) \<Rightarrow> (n, 3, 0)
        | Inl (Inr (Inl (n, trigger, b))) \<Rightarrow> (n, 3, 0)
        | Inl (Inr (Inr (n, i, b))) \<Rightarrow> (n, 2, length (conditionalTriggers b) - i)
        | Inr (Inl (Inl (n, event, ls, b))) \<Rightarrow> (n, 2, length ls)
        | Inr (Inl (Inr (n, x, l, b))) \<Rightarrow> (n, 1, 0)
        | Inr (Inr (Inl (n, ss, b))) \<Rightarrow> (n, 4, size_list size ss)
        | Inr (Inr (Inr (n, s, b))) \<Rightarrow> (n, 4, size s))")
     (auto intro!: wf_inv_image wf_lex_prod wf_less_than)

text \<open>\<^verbatim>\<open>new Events(registry)\<close>: no entry, no trigger, nothing done yet.\<close>

definition new_Events :: Events where
  "new_Events = \<lparr>entries = Map.empty, conditionalTriggers = [], trace = []\<rparr>"

text \<open>
  \<^verbatim>\<open>type Plugin\<close> of mod.ts: a name and two optional hooks. \<^verbatim>\<open>register\<close> receives the
  bus; a hook is the program it runs against the bus (\<open>None\<close>: the hook is absent).
\<close>

record BusPlugin =
  plugin_name :: string
  register_hook :: "stmt list option"
  initialize_hook :: "stmt list option"

text \<open>The \<^verbatim>\<open>Registry\<close> of mod.ts: the map \<^verbatim>\<open>_plugins\<close> in insertion order, and the bus.\<close>

record ModRegistry =
  reg_plugins :: "(string \<times> BusPlugin) list"
  reg_events :: Events

definition with_events :: "ModRegistry \<Rightarrow> Events outcome option \<Rightarrow> ModRegistry outcome option" where
  "with_events r res =
     (case res of
        None \<Rightarrow> None
      | Some (Ok b) \<Rightarrow> Some (Ok (r\<lparr>reg_events := b\<rparr>))
      | Some (Threw e b) \<Rightarrow> Some (Threw e (r\<lparr>reg_events := b\<rparr>)))"

definition registry_emit :: "nat \<Rightarrow> string \<Rightarrow> ModRegistry \<Rightarrow> ModRegistry outcome option" where
  "registry_emit n event r = with_events r (emit n event (reg_events r))"

definition run_hook :: "nat \<Rightarrow> bus_effect \<Rightarrow> stmt list \<Rightarrow> ModRegistry \<Rightarrow> ModRegistry outcome option" where
  "run_hook n x prog r = with_events r (run n prog (log_effect x (reg_events r)))"

definition register :: "nat \<Rightarrow> BusPlugin \<Rightarrow> ModRegistry \<Rightarrow> ModRegistry outcome option" where
  "register n plugin r =
     (if plugin_name plugin \<in> fst ` set (reg_plugins r)
      then Some (Threw (AlreadyRegistered (plugin_name plugin)) r)
      else
        (case register_hook plugin of
           None \<Rightarrow> Some (Ok (r\<lparr>reg_plugins := reg_plugins r @ [(plugin_name plugin, plugin)]\<rparr>))
         | Some prog \<Rightarrow>
             run_hook n (RegisterCalled (plugin_name plugin)) prog
               (r\<lparr>reg_plugins := reg_plugins r @ [(plugin_name plugin, plugin)]\<rparr>)))"

fun register_each :: "nat \<Rightarrow> BusPlugin list \<Rightarrow> ModRegistry \<Rightarrow> ModRegistry outcome option" where
  "register_each n [] r = Some (Ok r)"
| "register_each n (plugin # rest) r = and_then (register n plugin r) (register_each n rest)"

fun initialize_each :: "nat \<Rightarrow> BusPlugin list \<Rightarrow> ModRegistry \<Rightarrow> ModRegistry outcome option" where
  "initialize_each n [] r = Some (Ok r)"
| "initialize_each n (plugin # rest) r =
     and_then
       (and_then
          (case initialize_hook plugin of
             None \<Rightarrow> Some (Ok r)
           | Some prog \<Rightarrow>
               and_then (registry_emit n (''plugin.'' @ plugin_name plugin @ ''.initializing'') r)
                 (run_hook n (InitializeCalled (plugin_name plugin)) prog))
          (registry_emit n (''plugin.'' @ plugin_name plugin @ ''.initialized'')))
       (initialize_each n rest)"

definition initialize :: "nat \<Rightarrow> ModRegistry \<Rightarrow> ModRegistry outcome option" where
  "initialize n r = initialize_each n (map snd (reg_plugins r)) r"

text \<open>\<^verbatim>\<open>new Registry(plugins)\<close>.\<close>

definition Registry_new :: "nat \<Rightarrow> BusPlugin list \<Rightarrow> ModRegistry outcome option" where
  "Registry_new n plugins =
     and_then (register_each n plugins \<lparr>reg_plugins = [], reg_events = new_Events\<rparr>)
       (\<lambda>r1. and_then (registry_emit n ''core.registered'' r1)
          (\<lambda>r2. and_then (registry_emit n ''core.initializing'' r2)
             (\<lambda>r3. and_then (initialize n r3) (registry_emit n ''core.initialized''))))"

subsection \<open>Notions used to state the properties of the bus\<close>

text \<open>
  The listeners called by \<^verbatim>\<open>emit\<close> for the event \<open>e\<close>, and the listeners called by
  \<^verbatim>\<open>checkConditionalTriggers\<close>, each in order of the calls; and the hook calls.
\<close>

definition single_calls :: "string \<Rightarrow> bus_effect list \<Rightarrow> nat list" where
  "single_calls e tr =
     concat (map (\<lambda>x. case x of SingleCall e' l \<Rightarrow> if e' = e then [l] else [] | _ \<Rightarrow> []) tr)"

definition trigger_calls :: "bus_effect list \<Rightarrow> nat list" where
  "trigger_calls tr = concat (map (\<lambda>x. case x of TriggerCall k l \<Rightarrow> [l] | _ \<Rightarrow> []) tr)"

definition hook_calls :: "bus_effect list \<Rightarrow> bus_effect list" where
  "hook_calls tr =
     filter (\<lambda>x. case x of RegisterCalled p \<Rightarrow> True | InitializeCalled p \<Rightarrow> True | _ \<Rightarrow> False) tr"


text \<open>
  \<open>frozen e b b'\<close>: if \<open>e\<close> has fired in \<open>b\<close>, it has fired in \<open>b'\<close> and \<^verbatim>\<open>emit\<close> has
  called no listener for \<open>e\<close> between \<open>b\<close> and \<open>b'\<close>.
\<close>

definition frozen :: "string \<Rightarrow> Events \<Rightarrow> Events \<Rightarrow> bool" where
  "frozen e b b' \<longleftrightarrow>
     (is_fired b e \<longrightarrow>
        is_fired b' e \<and> single_calls e (trace b') = single_calls e (trace b))"






text \<open>\<open>no_listeners b\<close>: nothing is subscribed with the single condition.\<close>

definition no_listeners :: "Events \<Rightarrow> bool" where
  "no_listeners b \<longleftrightarrow> (\<forall>e t. entries b e = Some t \<longrightarrow> listeners t = [])"



text \<open>
  \<open>hooks_kept b b'\<close>: from \<open>b\<close> to \<open>b'\<close> the trace has only grown, and by no hook call.
  \<open>register_calls ps\<close>: the calls of the register hooks of \<open>ps\<close>, in order.
\<close>

definition hooks_kept :: "Events \<Rightarrow> Events \<Rightarrow> bool" where
  "hooks_kept b b' \<longleftrightarrow> hook_calls (trace b') = hook_calls (trace b)"

definition register_calls :: "BusPlugin list \<Rightarrow> bus_effect list" where
  "register_calls ps =
     map (\<lambda>p. RegisterCalled (plugin_name p)) (filter (\<lambda>p. register_hook p \<noteq> None) ps)"

text \<open>
  Plugins with both hooks, to be registered twice: one whose hooks do nothing, and one
  whose register hook subscribes a listener.
\<close>

definition dup_plugin :: BusPlugin where
  "dup_plugin = \<lparr>plugin_name = ''dup'', register_hook = Some [], initialize_hook = Some []\<rparr>"

definition subscriber_plugin :: BusPlugin where
  "subscriber_plugin =
     \<lparr>plugin_name = ''sub'',
      register_hook = Some [On (ConditionalTrigger Single [''core.initialized''] (Listener 1 []))],
      initialize_hook = Some []\<rparr>"

subsection \<open>Notions used to state the properties of runs with re-entrant listeners\<close>

text \<open>
  \<open>emittings e tr\<close>: how often \<^verbatim>\<open>emit\<close> has found \<open>e\<close> not fired and gone on to call
  its listeners (it writes the emitting line each time). \<open>unemitted e b b'\<close>: from \<open>b\<close>
  to \<open>b'\<close> the trace has only grown, and if \<^verbatim>\<open>emit\<close> has not started on \<open>e\<close> in between,
  \<open>e\<close> has not become fired and no listener has been called for it by \<^verbatim>\<open>emit\<close>.
  \<open>unfired_listener e l b\<close>: \<open>e\<close> has not fired and \<open>l\<close> is subscribed to it.
  \<open>reruns L e b b'\<close>: if \<open>e\<close> has at least \<open>L\<close> listeners in \<open>b\<close>, it has in \<open>b'\<close>, and from
  \<open>b\<close> to \<open>b'\<close> at least \<open>L\<close> listener calls were made for \<open>e\<close> per start of \<^verbatim>\<open>emit\<close> on
  \<open>e\<close>.
\<close>

definition emittings :: "string \<Rightarrow> bus_effect list \<Rightarrow> nat" where
  "emittings e tr = length (filter (\<lambda>x. x = DebugEmitting e) tr)"

definition unemitted :: "string \<Rightarrow> Events \<Rightarrow> Events \<Rightarrow> bool" where
  "unemitted e b b' \<longleftrightarrow>
     prefix (trace b) (trace b')
     \<and> (emittings e (trace b') = emittings e (trace b) \<longrightarrow>
          (is_fired b' e \<longrightarrow> is_fired b e)
        \<and> single_calls e (trace b') = single_calls e (trace b))"

definition unfired_listener :: "string \<Rightarrow> Listener \<Rightarrow> Events \<Rightarrow> bool" where
  "unfired_listener e l b \<longleftrightarrow> \<not> is_fired b e \<and> l \<in> set (listeners (get_entry b e))"

definition reruns :: "nat \<Rightarrow> string \<Rightarrow> Events \<Rightarrow> Events \<Rightarrow> bool" where
  "reruns L e b b' \<longleftrightarrow>
     (L \<le> length (listeners (get_entry b e)) \<longrightarrow>
        L \<le> length (listeners (get_entry b' e))
      \<and> length (single_calls e (trace b)) + L * emittings e (trace b')
          \<le> length (single_calls e (trace b')) + L * emittings e (trace b))"

subsection \<open>Notions used to state the properties of runs whose listeners do not call back\<close>

text \<open>
  The entries of the trigger map that have not been deleted, the trigger pending under a
  key, and the property of a \<^verbatim>\<open>Map\<close> that it holds each key once, which every bus built
  from a new one has. The calls made by \<^verbatim>\<open>checkConditionalTriggers\<close> for one key.
\<close>

fun live :: "('k \<times> 'v) option list \<Rightarrow> ('k \<times> 'v) list" where
  "live [] = []"
| "live (None # rest) = live rest"
| "live (Some kv # rest) = kv # live rest"


definition unique_keys :: "Events \<Rightarrow> bool" where
  "unique_keys b \<longleftrightarrow> distinct (map fst (live (conditionalTriggers b)))"

definition trigger_calls_for :: "string \<Rightarrow> bus_effect list \<Rightarrow> nat list" where
  "trigger_calls_for k tr =
     concat (map (\<lambda>x. case x of TriggerCall k' l \<Rightarrow> if k' = k then [l] else [] | _ \<Rightarrow> []) tr)"

text \<open>
  Listeners that do not call back into the bus have an empty program. \<open>passive_listeners\<close>:
  those subscribed to events; \<open>passive_triggers\<close> (above): those of the pending triggers;
  \<open>others_passive K\<close>: those of the pending triggers under keys other than \<open>K\<close>;
  \<open>satisfied_passive\<close>: those of the pending triggers whose condition holds.
\<close>

definition passive_listeners :: "Events \<Rightarrow> bool" where
  "passive_listeners b \<longleftrightarrow> (\<forall>e. \<forall>l \<in> set (listeners (get_entry b e)). body l = [])"






text \<open>
  What a sweep of \<^verbatim>\<open>checkConditionalTriggers\<close> from the index \<open>i\<close> leaves behind when the
  listeners it calls do not call back: each live entry from \<open>i\<close> on whose condition holds
  has been called and deleted, in order.
\<close>

definition fires :: "Events \<Rightarrow> (string \<times> ConditionalTrigger) option \<Rightarrow> bool" where
  "fires b x = (case x of None \<Rightarrow> False | Some (k, t) \<Rightarrow> shouldTrigger b t)"

definition fired_call :: "(string \<times> ConditionalTrigger) option \<Rightarrow> bus_effect list" where
  "fired_call x = (case x of None \<Rightarrow> [] | Some (k, t) \<Rightarrow> [TriggerCall k (lid (listener t))])"

definition sweep_from :: "nat \<Rightarrow> Events \<Rightarrow> Events" where
  "sweep_from i b =
     b\<lparr>conditionalTriggers :=
          take i (conditionalTriggers b)
          @ map (\<lambda>x. if fires b x then None else x) (drop i (conditionalTriggers b)),
       trace :=
          trace b @ concat (map fired_call (filter (fires b) (drop i (conditionalTriggers b))))\<rparr>"



section \<open>Properties of the resolver\<close>

declare visit.simps [simp del]

lemma find_name_Some: "find (\<lambda>x. name x = n) ps = Some q \<Longrightarrow> q \<in> set ps \<and> name q = n"
  by (auto simp: find_Some_iff)

lemma find_name_None: "find (\<lambda>x. name x = n) ps = None \<longleftrightarrow> n \<notin> name ` set ps"
  by (auto simp: find_None_iff)

text \<open>A visit only appends: to \<open>sorted\<close>, to \<open>visited\<close> and to the warnings.\<close>

lemma visit_extends:
  "visit ps p stack st = Ok st' \<Longrightarrow>
     \<exists>new w. sorted_out st' = sorted_out st @ new
        \<and> visited st' = visited st \<union> name ` set new
        \<and> warnings st' = warnings st @ w"
  and visit_deps_extends:
  "visit_deps ps p ds stack st = Ok st' \<Longrightarrow>
     \<exists>new w. sorted_out st' = sorted_out st @ new
        \<and> visited st' = visited st \<union> name ` set new
        \<and> warnings st' = warnings st @ w"
proof (induction ps p stack st and ps p ds stack st arbitrary: st' and st'
    rule: visit_visit_deps.induct)
  case (1 plugins p stack st)
  show ?case
  proof (cases "name p \<in> visited st")
    case True
    with "1.prems" show ?thesis by (simp add: visit.simps)
  next
    case False
    with "1.prems" obtain st1 where
      ns: "name p \<notin> set stack" and
      d: "visit_deps plugins p (deps p) (stack @ [name p]) st = Ok st1" and
      e: "st' = st1\<lparr>visited := insert (name p) (visited st1), sorted_out := sorted_out st1 @ [p]\<rparr>"
      by (auto simp: visit.simps split: if_splits outcome.splits)
    from "1.IH"[OF False ns d] obtain new w where
      "sorted_out st1 = sorted_out st @ new" "visited st1 = visited st \<union> name ` set new"
      "warnings st1 = warnings st @ w" by blast
    then have "sorted_out st' = sorted_out st @ (new @ [p]) \<and>
        visited st' = visited st \<union> name ` set (new @ [p]) \<and> warnings st' = warnings st @ w"
      using e by auto
    then show ?thesis by blast
  qed
next
  case (2 plugins p stack st)
  then show ?case by auto
next
  case (3 plugins p dep rest stack st)
  show ?case
  proof (cases "find (\<lambda>x. name x = dep_name dep) plugins")
    case None
    with "3.prems" have o: "optional dep" and
      r: "visit_deps plugins p rest stack
            (st\<lparr>warnings := warnings st @ [WarnOptionalSkipped (dep_name dep) (name p)]\<rparr>) = Ok st'"
      by (auto split: if_splits)
    from "3.IH"(1)[OF None o r] show ?thesis by auto
  next
    case (Some q)
    with "3.prems" obtain st1 where
      v: "visit plugins q stack st = Ok st1" and
      r: "visit_deps plugins p rest stack st1 = Ok st'"
      by (auto split: outcome.splits)
    from "3.IH"(2)[OF Some v] obtain new1 w1 where
      a: "sorted_out st1 = sorted_out st @ new1" "visited st1 = visited st \<union> name ` set new1"
      "warnings st1 = warnings st @ w1" by blast
    from "3.IH"(3)[OF Some v r] obtain new2 w2 where
      b: "sorted_out st' = sorted_out st1 @ new2" "visited st' = visited st1 \<union> name ` set new2"
      "warnings st' = warnings st1 @ w2" by blast
    have "sorted_out st' = sorted_out st @ (new1 @ new2) \<and>
        visited st' = visited st \<union> name ` set (new1 @ new2) \<and>
        warnings st' = warnings st @ (w1 @ w2)"
      using a b by auto
    then show ?thesis by blast
  qed
qed

text \<open>What holds after a visit that returns.\<close>

lemma visit_post:
  "visit ps p stack st = Ok st' \<Longrightarrow> name p \<in> visited st'"
  and visit_deps_post:
  "visit_deps ps p ds stack st = Ok st' \<Longrightarrow>
     (\<forall>d \<in> set ds. if dep_name d \<in> name ` set ps then dep_name d \<in> visited st'
         else optional d \<and> WarnOptionalSkipped (dep_name d) (name p) \<in> set (warnings st'))"
proof (induction ps p stack st and ps p ds stack st arbitrary: st' and st'
    rule: visit_visit_deps.induct)
  case (1 plugins p stack st)
  then show ?case
    by (auto simp: visit.simps split: if_splits outcome.splits)
next
  case (2 plugins p stack st)
  then show ?case by simp
next
  case (3 plugins p dep rest stack st)
  show ?case
  proof (cases "find (\<lambda>x. name x = dep_name dep) plugins")
    case None
    with "3.prems" have o: "optional dep" and
      r: "visit_deps plugins p rest stack
            (st\<lparr>warnings := warnings st @ [WarnOptionalSkipped (dep_name dep) (name p)]\<rparr>) = Ok st'"
      by (auto split: if_splits)
    from visit_deps_extends[OF r]
    have "WarnOptionalSkipped (dep_name dep) (name p) \<in> set (warnings st')"
      by auto
    moreover from None have "dep_name dep \<notin> name ` set plugins"
      by (simp add: find_name_None)
    ultimately show ?thesis using "3.IH"(1)[OF None o r] o by simp
  next
    case (Some q)
    with "3.prems" obtain st1 where
      v: "visit plugins q stack st = Ok st1" and
      r: "visit_deps plugins p rest stack st1 = Ok st'"
      by (auto split: outcome.splits)
    from Some have q: "q \<in> set plugins" "name q = dep_name dep"
      by (auto dest: find_name_Some)
    from "3.IH"(2)[OF Some v] have "dep_name dep \<in> visited st1" using q by simp
    with visit_deps_extends[OF r] have "dep_name dep \<in> visited st'" by auto
    moreover have "dep_name dep \<in> name ` set plugins" using q by force
    ultimately show ?thesis using "3.IH"(3)[OF Some v r] by simp
  qed
qed

text \<open>The invariant is kept, and nothing on the stack is marked visited.\<close>

lemma sort_inv_warn:
  "sort_inv ps st \<Longrightarrow> sort_inv ps (st\<lparr>warnings := warnings st @ w\<rparr>)"
  unfolding sort_inv_def by (auto split: if_splits)

lemma sort_inv_push:
  assumes inv: "sort_inv ps st" and p: "p \<in> set ps" and fresh: "name p \<notin> visited st"
    and post: "\<forall>d \<in> set (deps p). if dep_name d \<in> name ` set ps then dep_name d \<in> visited st
         else optional d \<and> WarnOptionalSkipped (dep_name d) (name p) \<in> set (warnings st)"
  shows "sort_inv ps (st\<lparr>visited := insert (name p) (visited st), sorted_out := sorted_out st @ [p]\<rparr>)"
  using assms unfolding sort_inv_def
  by (auto simp: nth_append less_Suc_eq split: if_splits)

lemma visit_inv:
  "visit ps p stack st = Ok st' \<Longrightarrow> sort_inv ps st \<Longrightarrow> p \<in> set ps \<Longrightarrow>
     set stack \<inter> visited st = {} \<Longrightarrow> sort_inv ps st' \<and> set stack \<inter> visited st' = {}"
  and visit_deps_inv:
  "visit_deps ps p ds stack st = Ok st' \<Longrightarrow> sort_inv ps st \<Longrightarrow>
     set stack \<inter> visited st = {} \<Longrightarrow> sort_inv ps st' \<and> set stack \<inter> visited st' = {}"
proof (induction ps p stack st and ps p ds stack st arbitrary: st' and st'
    rule: visit_visit_deps.induct)
  case (1 plugins p stack st)
  show ?case
  proof (cases "name p \<in> visited st")
    case True
    with "1.prems" show ?thesis by (simp add: visit.simps)
  next
    case False
    with "1.prems" obtain st1 where
      ns: "name p \<notin> set stack" and
      d: "visit_deps plugins p (deps p) (stack @ [name p]) st = Ok st1" and
      e: "st' = st1\<lparr>visited := insert (name p) (visited st1), sorted_out := sorted_out st1 @ [p]\<rparr>"
      by (auto simp: visit.simps split: if_splits outcome.splits)
    have "set (stack @ [name p]) \<inter> visited st = {}"
      using False "1.prems"(4) by auto
    from "1.IH"[OF False ns d "1.prems"(2) this]
    have i1: "sort_inv plugins st1" and s1: "set (stack @ [name p]) \<inter> visited st1 = {}"
      by auto
    from s1 have fresh: "name p \<notin> visited st1" by auto
    have "sort_inv plugins st'"
      unfolding e using i1 "1.prems"(3) fresh visit_deps_post[OF d]
      by (rule sort_inv_push)
    moreover have "set stack \<inter> visited st' = {}"
      using s1 ns by (auto simp: e)
    ultimately show ?thesis by simp
  qed
next
  case (2 plugins p stack st)
  then show ?case by simp
next
  case (3 plugins p dep rest stack st)
  show ?case
  proof (cases "find (\<lambda>x. name x = dep_name dep) plugins")
    case None
    with "3.prems" have o: "optional dep" and
      r: "visit_deps plugins p rest stack
            (st\<lparr>warnings := warnings st @ [WarnOptionalSkipped (dep_name dep) (name p)]\<rparr>) = Ok st'"
      by (auto split: if_splits)
    show ?thesis
      using "3.IH"(1)[OF None o r sort_inv_warn[OF "3.prems"(2)]] "3.prems"(3) by simp
  next
    case (Some q)
    with "3.prems" obtain st1 where
      v: "visit plugins q stack st = Ok st1" and
      r: "visit_deps plugins p rest stack st1 = Ok st'"
      by (auto split: outcome.splits)
    from Some have q: "q \<in> set plugins"
      by (auto dest: find_name_Some)
    from "3.IH"(2)[OF Some v "3.prems"(2) q "3.prems"(3)]
    have "sort_inv plugins st1" "set stack \<inter> visited st1 = {}" by auto
    from "3.IH"(3)[OF Some v r this] show ?thesis .
  qed
qed

lemma dep_rel_eq:
  "dep_rel ps = (\<Union>p\<in>set ps. (\<lambda>d. (name p, dep_name d)) `
                    {d \<in> set (deps p). dep_name d \<in> name ` set ps})"
  by (simp add: dep_rel_def dep_edges_def)

lemma dep_rel_iff:
  "(a, b) \<in> dep_rel ps \<longleftrightarrow>
     (\<exists>p \<in> set ps. \<exists>d \<in> set (deps p). a = name p \<and> b = dep_name d \<and> b \<in> name ` set ps)"
  unfolding dep_rel_eq by blast

text \<open>
  Without a cycle the only error of a visit is a missing required dependency: the stack
  is a chain of dependency edges, so a plugin met again on it would close a cycle.
\<close>

lemma visit_throws:
  "visit ps p stack st = Threw e st' \<Longrightarrow> acyclic (dep_rel ps) \<Longrightarrow> p \<in> set ps \<Longrightarrow>
     (\<forall>s \<in> set stack. (s, name p) \<in> (dep_rel ps)\<^sup>+) \<Longrightarrow> missing_error ps e"
  and visit_deps_throws:
  "visit_deps ps p ds stack st = Threw e st' \<Longrightarrow> acyclic (dep_rel ps) \<Longrightarrow> p \<in> set ps \<Longrightarrow>
     set ds \<subseteq> set (deps p) \<Longrightarrow>
     (\<forall>s \<in> set stack. (s, name p) \<in> (dep_rel ps)\<^sup>*) \<Longrightarrow> missing_error ps e"
proof (induction ps p stack st and ps p ds stack st arbitrary: st' and st'
    rule: visit_visit_deps.induct)
  case (1 plugins p stack st)
  have nostack: "name p \<notin> set stack"
  proof
    assume "name p \<in> set stack"
    with "1.prems"(4) have "(name p, name p) \<in> (dep_rel plugins)\<^sup>+" by blast
    with "1.prems"(2) show False by (auto simp: acyclic_def)
  qed
  from "1.prems"(1) nostack have nv: "name p \<notin> visited st" and
    d: "visit_deps plugins p (deps p) (stack @ [name p]) st = Threw e st'"
    by (auto simp: visit.simps split: if_splits outcome.splits)
  have "\<forall>s \<in> set (stack @ [name p]). (s, name p) \<in> (dep_rel plugins)\<^sup>*"
    using "1.prems"(4) by auto
  from "1.IH"[OF nv nostack d "1.prems"(2,3) subset_refl this] show ?case .
next
  case (2 plugins p stack st)
  then show ?case by simp
next
  case (3 plugins p dep rest stack st)
  have rest: "set rest \<subseteq> set (deps p)" and dep: "dep \<in> set (deps p)"
    using "3.prems"(4) by auto
  show ?case
  proof (cases "find (\<lambda>x. name x = dep_name dep) plugins")
    case None
    then have absent: "dep_name dep \<notin> name ` set plugins"
      by (simp add: find_name_None)
    show ?thesis
    proof (cases "optional dep")
      case True
      with None "3.prems"(1) have
        r: "visit_deps plugins p rest stack
            (st\<lparr>warnings := warnings st @ [WarnOptionalSkipped (dep_name dep) (name p)]\<rparr>)
              = Threw e st'"
        by simp
      from "3.IH"(1)[OF None True r "3.prems"(2,3) rest "3.prems"(5)] show ?thesis .
    next
      case False
      with None "3.prems"(1) have "e = MissingDependency (name p) (dep_name dep)"
        by simp
      with False absent dep "3.prems"(3) show ?thesis
        unfolding missing_error_def by blast
    qed
  next
    case (Some q)
    from Some have q: "q \<in> set plugins" "name q = dep_name dep"
      by (auto dest: find_name_Some)
    have edge: "(name p, name q) \<in> dep_rel plugins"
      unfolding dep_rel_iff using "3.prems"(3) dep q by force
    have chain: "\<forall>s \<in> set stack. (s, name q) \<in> (dep_rel plugins)\<^sup>+"
      using "3.prems"(5) edge by (meson rtrancl_into_trancl1)
    show ?thesis
    proof (cases "visit plugins q stack st")
      case (Threw e1 st1)
      with Some "3.prems"(1) have "e1 = e" by simp
      with "3.IH"(2)[OF Some _ "3.prems"(2) q(1) chain] Threw show ?thesis by simp
    next
      case (Ok st1)
      with Some "3.prems"(1) have r: "visit_deps plugins p rest stack st1 = Threw e st'"
        by simp
      from "3.IH"(3)[OF Some Ok r "3.prems"(2,3) rest "3.prems"(5)] show ?thesis .
    qed
  qed
qed

text \<open>
  Whatever a visit adds is the plugin itself or reachable from it along dependency edges.
\<close>

lemma visit_reach:
  "visit ps p stack st = Ok st' \<Longrightarrow> p \<in> set ps \<Longrightarrow>
     \<forall>n \<in> visited st' - visited st. (name p, n) \<in> (dep_rel ps)\<^sup>*"
  and visit_deps_reach:
  "visit_deps ps p ds stack st = Ok st' \<Longrightarrow> p \<in> set ps \<Longrightarrow> set ds \<subseteq> set (deps p) \<Longrightarrow>
     \<forall>n \<in> visited st' - visited st. (name p, n) \<in> (dep_rel ps)\<^sup>+"
proof (induction ps p stack st and ps p ds stack st arbitrary: st' and st'
    rule: visit_visit_deps.induct)
  case (1 plugins p stack st)
  show ?case
  proof (cases "name p \<in> visited st")
    case True
    with "1.prems" show ?thesis by (simp add: visit.simps)
  next
    case False
    with "1.prems" obtain st1 where
      ns: "name p \<notin> set stack" and
      d: "visit_deps plugins p (deps p) (stack @ [name p]) st = Ok st1" and
      e: "st' = st1\<lparr>visited := insert (name p) (visited st1), sorted_out := sorted_out st1 @ [p]\<rparr>"
      by (auto simp: visit.simps split: if_splits outcome.splits)
    from "1.IH"[OF False ns d "1.prems"(2) subset_refl] show ?thesis
      by (auto simp: e)
  qed
next
  case (2 plugins p stack st)
  then show ?case by simp
next
  case (3 plugins p dep rest stack st)
  have rest: "set rest \<subseteq> set (deps p)" and dep: "dep \<in> set (deps p)"
    using "3.prems"(3) by auto
  show ?case
  proof (cases "find (\<lambda>x. name x = dep_name dep) plugins")
    case None
    with "3.prems" have o: "optional dep" and
      r: "visit_deps plugins p rest stack
            (st\<lparr>warnings := warnings st @ [WarnOptionalSkipped (dep_name dep) (name p)]\<rparr>) = Ok st'"
      by (auto split: if_splits)
    from "3.IH"(1)[OF None o r "3.prems"(2) rest] show ?thesis by simp
  next
    case (Some q)
    with "3.prems" obtain st1 where
      v: "visit plugins q stack st = Ok st1" and
      r: "visit_deps plugins p rest stack st1 = Ok st'"
      by (auto split: outcome.splits)
    from Some have q: "q \<in> set plugins" "name q = dep_name dep"
      by (auto dest: find_name_Some)
    have edge: "(name p, name q) \<in> dep_rel plugins"
      unfolding dep_rel_iff using "3.prems"(2) dep q by force
    have a: "\<forall>n \<in> visited st1 - visited st. (name p, n) \<in> (dep_rel plugins)\<^sup>+"
      using "3.IH"(2)[OF Some v q(1)] edge by (meson rtrancl_into_trancl2)
    have b: "\<forall>n \<in> visited st' - visited st1. (name p, n) \<in> (dep_rel plugins)\<^sup>+"
      using "3.IH"(3)[OF Some v r "3.prems"(2) rest] .
    from a b show ?thesis by blast
  qed
qed

text \<open>
  The only console output of the traversal is the skipped-dependency warning.
\<close>

lemma visit_warnings:
  "set (warnings (state_of (visit ps p stack st)))
     \<subseteq> set (warnings st) \<union> range (\<lambda>(a, b). WarnOptionalSkipped a b)"
  and visit_deps_warnings:
  "set (warnings (state_of (visit_deps ps p ds stack st)))
     \<subseteq> set (warnings st) \<union> range (\<lambda>(a, b). WarnOptionalSkipped a b)"
proof (induction ps p stack st and ps p ds stack st rule: visit_visit_deps.induct)
  case (1 plugins p stack st)
  then show ?case
    by (auto simp: visit.simps split: outcome.splits)
next
  case (2 plugins p stack st)
  then show ?case by simp
next
  case (3 plugins p dep rest stack st)
  show ?case
  proof (cases "find (\<lambda>x. name x = dep_name dep) plugins")
    case None
    with "3.IH"(1) show ?thesis by (cases "optional dep") auto
  next
    case (Some q)
    show ?thesis
    proof (cases "visit plugins q stack st")
      case (Threw e1 st1)
      with Some "3.IH"(2)[OF Some] show ?thesis by simp
    next
      case (Ok st1)
      with Some "3.IH"(2)[OF Some] "3.IH"(3)[OF Some Ok] show ?thesis by auto
    qed
  qed
qed

text \<open>The same facts for the loop over the input.\<close>

lemma visit_all_append:
  "visit_all ps (as @ bs) st =
     (case visit_all ps as st of Threw e s \<Rightarrow> Threw e s | Ok s \<Rightarrow> visit_all ps bs s)"
  by (induction as arbitrary: st) (auto split: outcome.splits)

lemma visit_all_extends:
  "visit_all ps xs st = Ok st' \<Longrightarrow>
     \<exists>new w. sorted_out st' = sorted_out st @ new
        \<and> visited st' = visited st \<union> name ` set new
        \<and> warnings st' = warnings st @ w"
proof (induction xs arbitrary: st)
  case Nil
  then show ?case by simp
next
  case (Cons x xs)
  then obtain st1 where v: "visit ps x [] st = Ok st1" and r: "visit_all ps xs st1 = Ok st'"
    by (auto split: outcome.splits)
  from visit_extends[OF v] obtain new1 w1 where
    a: "sorted_out st1 = sorted_out st @ new1" "visited st1 = visited st \<union> name ` set new1"
    "warnings st1 = warnings st @ w1" by blast
  from Cons.IH[OF r] obtain new2 w2 where
    b: "sorted_out st' = sorted_out st1 @ new2" "visited st' = visited st1 \<union> name ` set new2"
    "warnings st' = warnings st1 @ w2" by blast
  have "sorted_out st' = sorted_out st @ (new1 @ new2) \<and>
      visited st' = visited st \<union> name ` set (new1 @ new2) \<and>
      warnings st' = warnings st @ (w1 @ w2)"
    using a b by auto
  then show ?case by blast
qed

lemma visit_all_post:
  "visit_all ps xs st = Ok st' \<Longrightarrow> \<forall>x \<in> set xs. name x \<in> visited st'"
proof (induction xs arbitrary: st)
  case Nil
  then show ?case by simp
next
  case (Cons x xs)
  then obtain st1 where v: "visit ps x [] st = Ok st1" and r: "visit_all ps xs st1 = Ok st'"
    by (auto split: outcome.splits)
  from visit_post[OF v] visit_all_extends[OF r] have "name x \<in> visited st'" by auto
  with Cons.IH[OF r] show ?case by simp
qed

lemma visit_all_inv:
  "visit_all ps xs st = Ok st' \<Longrightarrow> sort_inv ps st \<Longrightarrow> set xs \<subseteq> set ps \<Longrightarrow> sort_inv ps st'"
proof (induction xs arbitrary: st)
  case Nil
  then show ?case by simp
next
  case (Cons x xs)
  then obtain st1 where v: "visit ps x [] st = Ok st1" and r: "visit_all ps xs st1 = Ok st'"
    by (auto split: outcome.splits)
  from visit_inv[OF v Cons.prems(2)] Cons.prems(3) have "sort_inv ps st1" by simp
  from Cons.IH[OF r this] Cons.prems(3) show ?case by simp
qed

lemma visit_all_throws:
  "visit_all ps xs st = Threw e st' \<Longrightarrow> acyclic (dep_rel ps) \<Longrightarrow> set xs \<subseteq> set ps \<Longrightarrow>
     missing_error ps e"
proof (induction xs arbitrary: st)
  case Nil
  then show ?case by simp
next
  case (Cons x xs)
  show ?case
  proof (cases "visit ps x [] st")
    case (Threw e1 st1)
    with Cons.prems(1) have "e1 = e" by simp
    with visit_throws[OF Threw Cons.prems(2)] Cons.prems(3) show ?thesis by simp
  next
    case (Ok st1)
    with Cons.prems(1) have "visit_all ps xs st1 = Threw e st'" by simp
    from Cons.IH[OF this Cons.prems(2)] Cons.prems(3) show ?thesis by simp
  qed
qed

lemma visit_all_reach:
  "visit_all ps xs st = Ok st' \<Longrightarrow> set xs \<subseteq> set ps \<Longrightarrow>
     \<forall>n \<in> visited st' - visited st. \<exists>x \<in> set xs. (name x, n) \<in> (dep_rel ps)\<^sup>*"
proof (induction xs arbitrary: st)
  case Nil
  then show ?case by simp
next
  case (Cons x xs)
  then obtain st1 where v: "visit ps x [] st = Ok st1" and r: "visit_all ps xs st1 = Ok st'"
    by (auto split: outcome.splits)
  have a: "\<forall>n \<in> visited st1 - visited st. (name x, n) \<in> (dep_rel ps)\<^sup>*"
    using visit_reach[OF v] Cons.prems(2) by simp
  have b: "\<forall>n \<in> visited st' - visited st1. \<exists>y \<in> set xs. (name y, n) \<in> (dep_rel ps)\<^sup>*"
    using Cons.IH[OF r] Cons.prems(2) by simp
  show ?case
  proof
    fix n assume n: "n \<in> visited st' - visited st"
    show "\<exists>y \<in> set (x # xs). (name y, n) \<in> (dep_rel ps)\<^sup>*"
    proof (cases "n \<in> visited st1")
      case True
      with n a show ?thesis by simp
    next
      case False
      with n b show ?thesis by simp
    qed
  qed
qed

lemma visit_all_warnings:
  "set (warnings (state_of (visit_all ps xs st)))
     \<subseteq> set (warnings st) \<union> range (\<lambda>(a, b). WarnOptionalSkipped a b)"
proof (induction xs arbitrary: st)
  case Nil
  then show ?case by simp
next
  case (Cons x xs)
  show ?case
  proof (cases "visit ps x [] st")
    case (Threw e1 st1)
    with visit_warnings[of ps x "[]" st] show ?thesis by simp
  next
    case (Ok st1)
    with visit_warnings[of ps x "[]" st] Cons.IH[of st1] show ?thesis by auto
  qed
qed

lemma precedes_append_left: "a \<in> set us \<Longrightarrow> b \<in> set vs \<Longrightarrow> precedes a b (us @ vs)"
  by (induction us) auto

lemma precedes_take:
  assumes "i < length xs" and "a \<in> set (take i xs)"
  shows "precedes a (xs ! i) xs"
proof -
  have "xs ! i \<in> set (drop i xs)"
    using assms(1) by (metis Cons_nth_drop_Suc list.set_intros(1))
  with assms(2) have "precedes a (xs ! i) (take i xs @ drop i xs)"
    by (rule precedes_append_left)
  then show ?thesis by simp
qed

text \<open>What the invariant gives once every input plugin has been visited.\<close>

lemma sort_inv_init: "sort_inv ps \<lparr>visited = {}, sorted_out = [], warnings = []\<rparr>"
  by (simp add: sort_inv_def)

lemma sort_inv_complete:
  assumes inv: "sort_inv ps st" and d: "distinct (map name ps)"
    and all: "\<forall>x \<in> set ps. name x \<in> visited st"
  shows "set (sorted_out st) = set ps" and "mset (sorted_out st) = mset ps"
proof -
  from inv have v: "visited st = name ` set (sorted_out st)"
    and sub: "set (sorted_out st) \<subseteq> set ps"
    and dn: "distinct (map name (sorted_out st))"
    by (auto simp: sort_inv_def)
  from d have inj: "inj_on name (set ps)" by (simp add: distinct_map)
  show eq: "set (sorted_out st) = set ps"
  proof
    show "set (sorted_out st) \<subseteq> set ps" by (rule sub)
    show "set ps \<subseteq> set (sorted_out st)"
    proof
      fix x assume x: "x \<in> set ps"
      with all v obtain y where y: "y \<in> set (sorted_out st)" "name y = name x" by auto
      with sub x inj have "y = x" by (auto dest: inj_onD)
      with y show "x \<in> set (sorted_out st)" by simp
    qed
  qed
  from dn have "distinct (sorted_out st)" by (simp add: distinct_map)
  moreover from d have "distinct ps" by (simp add: distinct_map)
  ultimately show "mset (sorted_out st) = mset ps"
    using eq by (simp add: set_eq_iff_mset_eq_distinct)
qed

lemma sort_inv_precedes:
  assumes inv: "sort_inv ps st" and p: "p \<in> set (sorted_out st)" and d: "d \<in> set (deps p)"
    and present: "dep_name d \<in> name ` set ps"
  shows "precedes (dep_name d) (name p) (map name (sorted_out st))"
proof -
  from p obtain i where i: "i < length (sorted_out st)" "sorted_out st ! i = p"
    by (auto simp: in_set_conv_nth)
  with inv d present have "dep_name d \<in> name ` set (take i (sorted_out st))"
    unfolding sort_inv_def by (metis (no_types, lifting))
  then have "dep_name d \<in> set (take i (map name (sorted_out st)))"
    by (simp add: take_map)
  with i show ?thesis
    using precedes_take[of i "map name (sorted_out st)" "dep_name d"] by simp
qed

lemma sortByDependencies_Ok_inv:
  assumes ok: "sortByDependencies ps = Ok st" and d: "distinct (map name ps)"
  shows "sort_inv ps st" and "set (sorted_out st) = set ps" and "mset (sorted_out st) = mset ps"
proof -
  from ok have va: "visit_all ps ps \<lparr>visited = {}, sorted_out = [], warnings = []\<rparr> = Ok st"
    by (simp add: sortByDependencies_def)
  from visit_all_inv[OF va sort_inv_init] show inv: "sort_inv ps st" by simp
  from sort_inv_complete[OF inv d visit_all_post[OF va]]
  show "set (sorted_out st) = set ps" and "mset (sorted_out st) = mset ps" .
qed

lemma sortByDependencies_stable:
  assumes ok: "sortByDependencies ps = Ok st" and d: "distinct (map name ps)"
    and split: "ps = xs @ p # ys @ q # zs"
    and indep: "\<forall>r \<in> set (xs @ [p]). (name r, name q) \<notin> (dep_rel ps)\<^sup>+"
  shows "precedes (name p) (name q) (map name (sorted_out st))"
proof -
  let ?st0 = "\<lparr>visited = {}, sorted_out = [], warnings = []\<rparr>"
  from ok split have "visit_all ps ((xs @ [p]) @ (ys @ q # zs)) ?st0 = Ok st"
    by (simp add: sortByDependencies_def)
  then obtain st1 where
    a: "visit_all ps (xs @ [p]) ?st0 = Ok st1" and b: "visit_all ps (ys @ q # zs) st1 = Ok st"
    unfolding visit_all_append[of ps "xs @ [p]"] by (auto split: outcome.splits)
  have sub1: "set (xs @ [p]) \<subseteq> set ps" using split by auto
  from visit_all_inv[OF a sort_inv_init sub1] have inv1: "sort_inv ps st1" .
  then have v1: "visited st1 = name ` set (sorted_out st1)" by (simp add: sort_inv_def)
  from visit_all_post[OF a] have p1: "name p \<in> visited st1" by simp
  have q1: "name q \<notin> visited st1"
  proof
    assume "name q \<in> visited st1"
    with visit_all_reach[OF a sub1] obtain r where
      r: "r \<in> set (xs @ [p])" "(name r, name q) \<in> (dep_rel ps)\<^sup>*" by auto
    with indep have "name r = name q" by (auto simp: rtrancl_eq_or_trancl)
    moreover from d split have "name q \<notin> name ` set (xs @ [p])" by auto
    ultimately show False using r(1) by (metis imageI)
  qed
  from visit_all_extends[OF b] obtain new where
    new: "sorted_out st = sorted_out st1 @ new" "visited st = visited st1 \<union> name ` set new"
    by blast
  from visit_all_post[OF b] have "name q \<in> visited st" by simp
  with q1 new have "name q \<in> set (map name new)" by auto
  moreover from p1 v1 have "name p \<in> set (map name (sorted_out st1))" by simp
  ultimately have "precedes (name p) (name q) (map name (sorted_out st1) @ map name new)"
    by (intro precedes_append_left)
  with new show ?thesis by simp
qed

text \<open>Auxiliary facts: ranks witness acyclicity; the orders of three elements.\<close>

lemma trancl_rank:
  fixes f :: "'a \<Rightarrow> nat"
  assumes dec: "\<And>a b. (a, b) \<in> r \<Longrightarrow> f b < f a" and ab: "(a, b) \<in> r\<^sup>+"
  shows "f b < f a"
  using ab by (induction rule: trancl_induct) (auto dest: dec)

lemma acyclic_rank:
  fixes f :: "'a \<Rightarrow> nat"
  assumes dec: "\<And>a b. (a, b) \<in> r \<Longrightarrow> f b < f a"
  shows "acyclic r"
proof (rule acyclicI, rule allI, rule notI)
  fix x assume "(x, x) \<in> r\<^sup>+"
  from trancl_rank[OF dec this] show False by simp
qed

lemma mset_eq_three:
  assumes "mset ps = mset [a, b, c]"
  shows "ps \<in> {[a, b, c], [a, c, b], [b, a, c], [b, c, a], [c, a, b], [c, b, a]}"
proof -
  from assms have "length ps = 3" by (metis length_Cons list.size(3) mset_eq_length numeral_3_eq_3)
  then obtain x y z where ps: "ps = [x, y, z]"
    by (auto simp: numeral_3_eq_3 length_Suc_conv)
  from assms show ?thesis unfolding ps
    by (auto simp: add_eq_conv_ex)
qed

text \<open>The loader's run in terms of the resolver's result.\<close>

lemma registerPlugins_distinct:
  "distinct (map name ps) \<Longrightarrow> name ` set ps \<inter> fst ` set reg = {} \<Longrightarrow>
     registerPlugins ps reg = Ok (reg @ map (\<lambda>p. (name p, p)) ps)"
proof (induction ps arbitrary: reg)
  case Nil
  then show ?case by simp
next
  case (Cons p ps)
  from Cons.prems have "name p \<notin> fst ` set reg" by auto
  then have r: "registry_register p reg = Ok (reg @ [(name p, p)])"
    by (simp add: registry_register_def)
  from Cons.prems have "name ` set ps \<inter> fst ` set (reg @ [(name p, p)]) = {}"
    by auto
  with Cons.IH[of "reg @ [(name p, p)]"] Cons.prems(1) r show ?case by simp
qed

lemma Loader_start_distinct:
  assumes "distinct (map name ps)"
  shows "Loader_start ps =
     (case sortByDependencies ps of
        Threw e st \<Rightarrow> Threw e (warnings st)
      | Ok st \<Rightarrow>
          Ok (warnings st
              @ concat (map init_plugin (sorted_out st))
              @ concat (map afterInitAll_plugin (rev (sorted_out st)))))"
  using registerPlugins_distinct[OF assms, of "[]"]
  by (simp add: Loader_start_def start_def registry_all_def comp_def)

lemma init_calls_append [simp]: "init_calls (xs @ ys) = init_calls xs @ init_calls ys"
  by (simp add: init_calls_def)

lemma afterInitAll_calls_append [simp]:
  "afterInitAll_calls (xs @ ys) = afterInitAll_calls xs @ afterInitAll_calls ys"
  by (simp add: afterInitAll_calls_def)

lemma calls_of_warnings:
  assumes "set ws \<subseteq> range (\<lambda>(a, b). WarnOptionalSkipped a b)"
  shows "init_calls ws = []" and "afterInitAll_calls ws = []"
  using assms by (induction ws) (auto simp: init_calls_def afterInitAll_calls_def)

lemma calls_of_init_plugins:
  "init_calls (concat (map init_plugin xs)) = map name xs"
  "afterInitAll_calls (concat (map init_plugin xs)) = []"
  by (induction xs)
     (auto simp: init_calls_def afterInitAll_calls_def init_plugin_def log_message_def
           split: option.splits)

lemma calls_of_afterInitAll_plugins:
  "init_calls (concat (map afterInitAll_plugin xs)) = []"
  "afterInitAll_calls (concat (map afterInitAll_plugin xs))
     = map name (filter (\<lambda>p. afterInitAll p \<noteq> None) xs)"
  by (induction xs)
     (auto simp: init_calls_def afterInitAll_calls_def afterInitAll_plugin_def log_message_def
           split: option.splits)

lemma sortByDependencies_warnings:
  "set (warnings (state_of (sortByDependencies ps))) \<subseteq> range (\<lambda>(a, b). WarnOptionalSkipped a b)"
  using visit_all_warnings[of ps ps "\<lparr>visited = {}, sorted_out = [], warnings = []\<rparr>"]
  by (simp add: sortByDependencies_def)

lemma Loader_start_Ok:
  assumes d: "distinct (map name ps)" and ok: "sortByDependencies ps = Ok st"
  shows "\<exists>effs. Loader_start ps = Ok effs
      \<and> init_calls effs = map name (sorted_out st)
      \<and> afterInitAll_calls effs = map name (filter (\<lambda>p. afterInitAll p \<noteq> None) (rev (sorted_out st)))
      \<and> set (warnings st) \<subseteq> set effs"
proof -
  from sortByDependencies_warnings[of ps] ok
  have w: "set (warnings st) \<subseteq> range (\<lambda>(a, b). WarnOptionalSkipped a b)" by simp
  show ?thesis
    unfolding Loader_start_distinct[OF d] ok
    by (simp add: calls_of_warnings[OF w] calls_of_init_plugins calls_of_afterInitAll_plugins)
qed

lemma Loader_start_Threw:
  assumes d: "distinct (map name ps)" and thr: "sortByDependencies ps = Threw e st"
  shows "\<exists>effs. Loader_start ps = Threw e effs \<and> init_calls effs = []
      \<and> afterInitAll_calls effs = []"
proof -
  from sortByDependencies_warnings[of ps] thr
  have w: "set (warnings st) \<subseteq> range (\<lambda>(a, b). WarnOptionalSkipped a b)" by simp
  show ?thesis
    unfolding Loader_start_distinct[OF d] thr
    by (simp add: calls_of_warnings[OF w])
qed

lemma sort_inv_absent:
  assumes inv: "sort_inv ps st" and p: "p \<in> set (sorted_out st)" and d: "d \<in> set (deps p)"
    and absent: "dep_name d \<notin> name ` set ps"
  shows "optional d" and "WarnOptionalSkipped (dep_name d) (name p) \<in> set (warnings st)"
proof -
  from p obtain i where i: "i < length (sorted_out st)" "sorted_out st ! i = p"
    by (auto simp: in_set_conv_nth)
  with inv d absent
  have "optional d \<and> WarnOptionalSkipped (dep_name d) (name p) \<in> set (warnings st)"
    unfolding sort_inv_def by (metis (no_types, lifting))
  then show "optional d" and "WarnOptionalSkipped (dep_name d) (name p) \<in> set (warnings st)"
    by simp_all
qed

text \<open>When no plugin has a present dependency, the traversal appends the input as it is.\<close>

lemma visit_deps_all_absent:
  assumes "\<forall>d \<in> set ds. dep_name d \<notin> name ` set ps \<and> optional d"
  shows "\<exists>w. visit_deps ps p ds stack st = Ok (st\<lparr>warnings := warnings st @ w\<rparr>)"
  using assms
proof (induction ds arbitrary: st)
  case Nil
  have "st = st\<lparr>warnings := warnings st @ []\<rparr>" by simp
  then show ?case by (metis visit_deps.simps(1))
next
  case (Cons d ds)
  let ?st1 = "st\<lparr>warnings := warnings st @ [WarnOptionalSkipped (dep_name d) (name p)]\<rparr>"
  from Cons.prems have a: "find (\<lambda>x. name x = dep_name d) ps = None" "optional d"
    by (simp_all add: find_name_None)
  from Cons.IH[of ?st1] Cons.prems obtain w where
    "visit_deps ps p ds stack ?st1 = Ok (?st1\<lparr>warnings := warnings ?st1 @ w\<rparr>)" by auto
  with a have "visit_deps ps p (d # ds) stack st
      = Ok (st\<lparr>warnings := warnings st @ (WarnOptionalSkipped (dep_name d) (name p) # w)\<rparr>)"
    by simp
  then show ?case by blast
qed

lemma visit_all_independent:
  assumes "\<forall>p \<in> set xs. \<forall>d \<in> set (deps p). dep_name d \<notin> name ` set ps \<and> optional d"
    and "distinct (map name xs)" and "name ` set xs \<inter> visited st = {}"
  shows "\<exists>st'. visit_all ps xs st = Ok st' \<and> sorted_out st' = sorted_out st @ xs
      \<and> visited st' = visited st \<union> name ` set xs"
  using assms
proof (induction xs arbitrary: st)
  case Nil
  then show ?case by simp
next
  case (Cons p xs)
  from Cons.prems(1) have "\<forall>d \<in> set (deps p). dep_name d \<notin> name ` set ps \<and> optional d"
    by simp
  from visit_deps_all_absent[OF this, of p "[] @ [name p]" st] obtain w where
    w: "visit_deps ps p (deps p) ([] @ [name p]) st = Ok (st\<lparr>warnings := warnings st @ w\<rparr>)"
    by blast
  let ?st1 = "st\<lparr>warnings := warnings st @ w, visited := insert (name p) (visited st),
      sorted_out := sorted_out st @ [p]\<rparr>"
  from Cons.prems(3) w have v: "visit ps p [] st = Ok ?st1"
    by (simp add: visit.simps)
  from Cons.prems(2,3) have "name ` set xs \<inter> visited ?st1 = {}" by auto
  from Cons.IH[OF _ _ this] Cons.prems(1,2) obtain st' where
    "visit_all ps xs ?st1 = Ok st'" "sorted_out st' = sorted_out ?st1 @ xs"
    "visited st' = visited ?st1 \<union> name ` set xs" by auto
  with v show ?case by auto
qed

lemma sortByDependencies_independent:
  assumes "dep_rel ps = {}" and "distinct (map name ps)"
    and "\<forall>p \<in> set ps. \<forall>d \<in> set (deps p). \<not> optional d \<longrightarrow> dep_name d \<in> name ` set ps"
    and "sortByDependencies ps = Ok st"
  shows "sorted_out st = ps"
proof -
  have "\<forall>p \<in> set ps. \<forall>d \<in> set (deps p). dep_name d \<notin> name ` set ps \<and> optional d"
  proof (intro ballI)
    fix p d assume pd: "p \<in> set ps" "d \<in> set (deps p)"
    have "dep_name d \<notin> name ` set ps"
    proof
      assume "dep_name d \<in> name ` set ps"
      with pd have "(name p, dep_name d) \<in> dep_rel ps" unfolding dep_rel_iff by blast
      with assms(1) show False by simp
    qed
    with assms(3) pd show "dep_name d \<notin> name ` set ps \<and> optional d" by blast
  qed
  from visit_all_independent[OF this assms(2), of "\<lparr>visited = {}, sorted_out = [], warnings = []\<rparr>"]
    assms(4)
  show ?thesis by (simp add: sortByDependencies_def)
qed

section \<open>The claims about the resolver and the loader\<close>

text \<open>
  C1, as stated, refuted: the input Database, Logger, Config, where Database requires
  Config and Logger is independent of both. The graph is acyclic and nothing is missing;
  Logger and Config are independent of each other and Logger comes first in the input,
  yet the output is Config, Database, Logger: Config has been placed as the dependency of
  Database before Logger is visited.
\<close>

theorem independent_plugins_counterexample:
  "[Database, Logger, Config] = [Database] @ Logger # [] @ Config # []
   \<and> distinct (map name [Database, Logger, Config])
   \<and> deps Database = [Dependency ''Config'' False] \<and> deps Logger = [] \<and> deps Config = []
   \<and> acyclic (dep_rel [Database, Logger, Config])
   \<and> (name Logger, name Config) \<notin> (dep_rel [Database, Logger, Config])\<^sup>+
   \<and> (name Config, name Logger) \<notin> (dep_rel [Database, Logger, Config])\<^sup>+
   \<and> (\<exists>st. sortByDependencies [Database, Logger, Config] = Ok st
         \<and> sorted_out st = [Config, Database, Logger])"
proof -
  let ?ps = "[Database, Logger, Config]"
  have nm: "name Database = ''Database''" "name Config = ''Config''" "name Logger = ''Logger''"
    by (simp_all add: Database_def Config_def Logger_def)
  have dp: "deps Database = [Dependency ''Config'' False]" "deps Config = []" "deps Logger = []"
    by (simp_all add: deps_def Database_def Config_def Logger_def)
  have rel: "dep_rel ?ps = {(''Database'', ''Config'')}"
    by (auto simp: dep_rel_iff nm dp)
  have tr: "(dep_rel ?ps)\<^sup>+ = {(''Database'', ''Config'')}"
    unfolding rel by (auto elim: trancl.cases)
  have acyc: "acyclic (dep_rel ?ps)"
    unfolding acyclic_def tr by simp
  have "\<exists>st. sortByDependencies ?ps = Ok st \<and> sorted_out st = [Config, Database, Logger]"
    by (simp add: sortByDependencies_def visit.simps nm dp)
  with acyc tr show ?thesis by (simp add: nm dp)
qed

text \<open>
  C1, amended. For plugin descriptors with distinct names whose dependency graph (edges to
  present dependencies, required or optional) is acyclic and whose required dependencies
  are all present, \<open>sortByDependencies\<close> returns; its output is a permutation of the
  input; every present dependency of a plugin, required or optional, occurs before the
  plugin; and the input order is kept where the traversal has not already placed a
  plugin as a dependency: a plugin \<open>p\<close> that comes before \<open>q\<close> in the input also comes
  before \<open>q\<close> in the output whenever \<open>q\<close> is not a transitive dependency of \<open>p\<close> or of
  a plugin before \<open>p\<close> in the input. In particular, when no plugin has a present
  dependency, the output is the input.
\<close>

theorem sortByDependencies_topological_order:
  assumes d: "distinct (map name ps)"
    and acyc: "acyclic (dep_rel ps)"
    and req: "\<forall>p \<in> set ps. \<forall>d \<in> set (deps p). \<not> optional d \<longrightarrow> dep_name d \<in> name ` set ps"
  shows "\<exists>st. sortByDependencies ps = Ok st
      \<and> mset (sorted_out st) = mset ps
      \<and> (\<forall>p \<in> set ps. \<forall>d \<in> set (deps p). dep_name d \<in> name ` set ps \<longrightarrow>
            precedes (dep_name d) (name p) (map name (sorted_out st)))
      \<and> (\<forall>xs p ys q zs. ps = xs @ p # ys @ q # zs
            \<and> (\<forall>r \<in> set (xs @ [p]). (name r, name q) \<notin> (dep_rel ps)\<^sup>+) \<longrightarrow>
            precedes (name p) (name q) (map name (sorted_out st)))
      \<and> (dep_rel ps = {} \<longrightarrow> sorted_out st = ps)"
proof (cases "sortByDependencies ps")
  case (Threw e st)
  then have "missing_error ps e"
    using visit_all_throws[of ps ps _ e st] acyc by (simp add: sortByDependencies_def)
  with req show ?thesis unfolding missing_error_def by blast
next
  case (Ok st)
  note inv = sortByDependencies_Ok_inv[OF Ok d]
  have "\<forall>p \<in> set ps. \<forall>d \<in> set (deps p). dep_name d \<in> name ` set ps \<longrightarrow>
            precedes (dep_name d) (name p) (map name (sorted_out st))"
    using sort_inv_precedes[OF inv(1)] inv(2) by blast
  moreover have "\<forall>xs p ys q zs. ps = xs @ p # ys @ q # zs
            \<and> (\<forall>r \<in> set (xs @ [p]). (name r, name q) \<notin> (dep_rel ps)\<^sup>+) \<longrightarrow>
            precedes (name p) (name q) (map name (sorted_out st))"
    using sortByDependencies_stable[OF Ok d] by blast
  moreover have "dep_rel ps = {} \<longrightarrow> sorted_out st = ps"
    using sortByDependencies_independent[OF _ d req Ok] by blast
  ultimately show ?thesis using Ok inv(3) by blast
qed

theorem sortByDependencies_topological_order_witness:
  "distinct (map name [Database, Config, Api])
   \<and> acyclic (dep_rel [Database, Config, Api])
   \<and> (\<exists>st. sortByDependencies [Database, Config, Api] = Ok st
        \<and> mset (sorted_out st) = mset [Database, Config, Api]
        \<and> precedes ''Config'' ''Database'' (map name (sorted_out st))
        \<and> precedes ''Database'' ''Api'' (map name (sorted_out st)))"
proof -
  let ?ps = "[Database, Config, Api]"
  define rank :: "string \<Rightarrow> nat" where
    "rank = (\<lambda>n. if n = ''Config'' then 0 else if n = ''Database'' then 1 else 2)"
  have nm: "name Database = ''Database''" "name Config = ''Config''" "name Api = ''Api''"
    by (simp_all add: Database_def Config_def Api_def)
  have dp: "deps Database = [Dependency ''Config'' False]" "deps Config = []"
    "deps Api = [Dependency ''Config'' False, Dependency ''Database'' False]"
    by (simp_all add: deps_def Database_def Config_def Api_def)
  have d: "distinct (map name ?ps)" by (simp add: nm)
  have dec: "\<And>a b. (a, b) \<in> dep_rel ?ps \<Longrightarrow> rank b < rank a"
    by (auto simp: dep_rel_iff nm dp rank_def)
  have acyc: "acyclic (dep_rel ?ps)" using dec by (rule acyclic_rank[where f = rank])
  have req: "\<forall>p \<in> set ?ps. \<forall>d \<in> set (deps p). \<not> optional d \<longrightarrow> dep_name d \<in> name ` set ?ps"
    by (simp add: nm dp)
  from sortByDependencies_topological_order[OF d acyc req] obtain st where
    ok: "sortByDependencies ?ps = Ok st" and perm: "mset (sorted_out st) = mset ?ps" and
    before: "\<forall>p \<in> set ?ps. \<forall>d \<in> set (deps p). dep_name d \<in> name ` set ?ps \<longrightarrow>
            precedes (dep_name d) (name p) (map name (sorted_out st))" and
    stable: "\<forall>xs p ys q zs. ?ps = xs @ p # ys @ q # zs
            \<and> (\<forall>r \<in> set (xs @ [p]). (name r, name q) \<notin> (dep_rel ?ps)\<^sup>+) \<longrightarrow>
            precedes (name p) (name q) (map name (sorted_out st))"
    by blast
  from before have b1: "precedes ''Config'' ''Database'' (map name (sorted_out st))"
    by (simp add: nm dp)
  have "(name Database, name Api) \<notin> (dep_rel ?ps)\<^sup>+"
  proof
    assume "(name Database, name Api) \<in> (dep_rel ?ps)\<^sup>+"
    from trancl_rank[where f = rank, OF dec this] show False by (simp add: rank_def nm)
  qed
  then have "?ps = [] @ Database # [Config] @ Api # []
      \<and> (\<forall>r \<in> set ([] @ [Database]). (name r, name Api) \<notin> (dep_rel ?ps)\<^sup>+)"
    by simp
  with stable have "precedes (name Database) (name Api) (map name (sorted_out st))"
    by blast
  then have b2: "precedes ''Database'' ''Api'' (map name (sorted_out st))"
    by (simp add: nm)
  from d acyc ok perm b1 b2 show ?thesis by blast
qed

text \<open>
  C7, first half as stated, refuted: with a cycle met first, a set holding a plugin with an
  absent required dependency makes the resolver raise the circular-dependency error.
\<close>

theorem missing_dependency_counterexample:
  "plugin_c \<in> set [plugin_a, plugin_b, plugin_c]
   \<and> Dependency ''missing'' False \<in> set (deps plugin_c)
   \<and> ''missing'' \<notin> name ` set [plugin_a, plugin_b, plugin_c]
   \<and> Loader_start [plugin_a, plugin_b, plugin_c]
        = Threw (CircularDependency [''a'', ''b''] ''a'') []"
  by (simp add: Loader_start_def registry_register_def start_def sortByDependencies_def
        registry_all_def visit.simps deps_def plugin_a_def plugin_b_def plugin_c_def)

text \<open>
  C7, amended. For plugin descriptors with distinct names: if some plugin declares a
  required dependency absent from the set, the loader's run throws and calls no \<open>init\<close>
  hook, and the error is the missing-dependency error of such a plugin whenever the
  dependency graph is acyclic. If the graph is acyclic and every absent dependency is
  optional, the run returns, every plugin is initialized once, and for every absent
  dependency of every plugin the warning has been written.
\<close>

theorem missing_dependency_handling:
  assumes d: "distinct (map name ps)"
  shows "((\<exists>p \<in> set ps. \<exists>d \<in> set (deps p). \<not> optional d \<and> dep_name d \<notin> name ` set ps) \<longrightarrow>
            (\<exists>e effs. Loader_start ps = Threw e effs \<and> init_calls effs = []
                \<and> (acyclic (dep_rel ps) \<longrightarrow> missing_error ps e)))
       \<and> (acyclic (dep_rel ps)
            \<and> (\<forall>p \<in> set ps. \<forall>d \<in> set (deps p). dep_name d \<notin> name ` set ps \<longrightarrow> optional d) \<longrightarrow>
            (\<exists>effs. Loader_start ps = Ok effs
                \<and> mset (init_calls effs) = mset (map name ps)
                \<and> (\<forall>p \<in> set ps. \<forall>d \<in> set (deps p). dep_name d \<notin> name ` set ps \<longrightarrow>
                      WarnOptionalSkipped (dep_name d) (name p) \<in> set effs)))"
proof (intro conjI impI)
  assume "\<exists>p \<in> set ps. \<exists>d \<in> set (deps p). \<not> optional d \<and> dep_name d \<notin> name ` set ps"
  then obtain p dp where p: "p \<in> set ps" "dp \<in> set (deps p)" "\<not> optional dp"
    "dep_name dp \<notin> name ` set ps" by blast
  show "\<exists>e effs. Loader_start ps = Threw e effs \<and> init_calls effs = []
          \<and> (acyclic (dep_rel ps) \<longrightarrow> missing_error ps e)"
  proof (cases "sortByDependencies ps")
    case (Ok st)
    from sortByDependencies_Ok_inv[OF Ok d] have "sort_inv ps st" "p \<in> set (sorted_out st)"
      using p(1) by simp_all
    from sort_inv_absent(1)[OF this p(2,4)] p(3) show ?thesis by simp
  next
    case (Threw e st)
    from Loader_start_Threw[OF d Threw] obtain effs where
      "Loader_start ps = Threw e effs" "init_calls effs = []" by blast
    moreover have "acyclic (dep_rel ps) \<longrightarrow> missing_error ps e"
      using visit_all_throws[of ps ps _ e st] Threw by (simp add: sortByDependencies_def)
    ultimately show ?thesis by blast
  qed
next
  assume h: "acyclic (dep_rel ps)
      \<and> (\<forall>p \<in> set ps. \<forall>d \<in> set (deps p). dep_name d \<notin> name ` set ps \<longrightarrow> optional d)"
  show "\<exists>effs. Loader_start ps = Ok effs
          \<and> mset (init_calls effs) = mset (map name ps)
          \<and> (\<forall>p \<in> set ps. \<forall>d \<in> set (deps p). dep_name d \<notin> name ` set ps \<longrightarrow>
                WarnOptionalSkipped (dep_name d) (name p) \<in> set effs)"
  proof (cases "sortByDependencies ps")
    case (Threw e st)
    then have "missing_error ps e"
      using visit_all_throws[of ps ps _ e st] h by (simp add: sortByDependencies_def)
    with h show ?thesis unfolding missing_error_def by blast
  next
    case (Ok st)
    note inv = sortByDependencies_Ok_inv[OF Ok d]
    from Loader_start_Ok[OF d Ok] obtain effs where
      effs: "Loader_start ps = Ok effs" "init_calls effs = map name (sorted_out st)"
      "set (warnings st) \<subseteq> set effs" by blast
    from inv(3) have "mset (map name (sorted_out st)) = mset (map name ps)"
      by (metis mset_map)
    moreover have "\<forall>p \<in> set ps. \<forall>d \<in> set (deps p). dep_name d \<notin> name ` set ps \<longrightarrow>
                WarnOptionalSkipped (dep_name d) (name p) \<in> set effs"
      using sort_inv_absent(2)[OF inv(1)] inv(2) effs(3) by blast
    ultimately show ?thesis using effs(1,2) by simp
  qed
qed

theorem missing_dependency_handling_witness:
  "distinct (map name [Database])
   \<and> (\<exists>e effs. Loader_start [Database] = Threw e effs \<and> init_calls effs = []
         \<and> missing_error [Database] e)
   \<and> distinct (map name [Database_opt])
   \<and> acyclic (dep_rel [Database_opt])
   \<and> (\<exists>effs. Loader_start [Database_opt] = Ok effs
         \<and> mset (init_calls effs) = mset (map name [Database_opt])
         \<and> WarnOptionalSkipped ''Config'' ''Database'' \<in> set effs)"
proof -
  have nm: "name Database = ''Database''" "name Database_opt = ''Database''"
    "deps Database = [Dependency ''Config'' False]"
    "deps Database_opt = [Dependency ''Config'' True]"
    by (simp_all add: Database_def Database_opt_def deps_def)
  have e1: "dep_rel [Database] = {}" and e2: "dep_rel [Database_opt] = {}"
    by (simp_all add: dep_rel_eq nm)
  have d1: "distinct (map name [Database])" and d2: "distinct (map name [Database_opt])"
    by simp_all
  have a1: "acyclic (dep_rel [Database])" and a2: "acyclic (dep_rel [Database_opt])"
    by (simp_all add: e1 e2 acyclic_def)
  have "\<exists>p \<in> set [Database]. \<exists>d \<in> set (deps p).
          \<not> optional d \<and> dep_name d \<notin> name ` set [Database]"
    by (simp add: nm)
  with missing_dependency_handling[OF d1] a1
  have r1: "\<exists>e effs. Loader_start [Database] = Threw e effs \<and> init_calls effs = []
         \<and> missing_error [Database] e"
    by blast
  have "\<forall>p \<in> set [Database_opt]. \<forall>d \<in> set (deps p).
          dep_name d \<notin> name ` set [Database_opt] \<longrightarrow> optional d"
    by (simp add: nm)
  with missing_dependency_handling[OF d2] a2 obtain effs where
    "Loader_start [Database_opt] = Ok effs"
    "mset (init_calls effs) = mset (map name [Database_opt])"
    "\<forall>p \<in> set [Database_opt]. \<forall>d \<in> set (deps p). dep_name d \<notin> name ` set [Database_opt] \<longrightarrow>
        WarnOptionalSkipped (dep_name d) (name p) \<in> set effs"
    by blast
  then have r2: "\<exists>effs. Loader_start [Database_opt] = Ok effs
         \<and> mset (init_calls effs) = mset (map name [Database_opt])
         \<and> WarnOptionalSkipped ''Config'' ''Database'' \<in> set effs"
    by (auto simp: nm)
  from d1 r1 d2 a2 r2 show ?thesis by blast
qed

text \<open>
  C8. For any three plugins named Config (no dependencies), Database (depending on
  Config) and Api (depending on Config and Database), each with an \<open>afterInitAll\<close> hook,
  registered in any order, the loader's run calls \<open>init\<close> in the order Config, Database,
  Api and then \<open>afterInitAll\<close> in the order Api, Database, Config.
\<close>

theorem start_Config_Database_Api:
  assumes c: "name c = ''Config''" "deps c = []"
    and d: "name d = ''Database''" "map dep_name (deps d) = [''Config'']"
    and a: "name a = ''Api''" "map dep_name (deps a) = [''Config'', ''Database'']"
    and h: "afterInitAll c \<noteq> None" "afterInitAll d \<noteq> None" "afterInitAll a \<noteq> None"
    and ps: "mset ps = mset [c, d, a]"
  shows "\<exists>effs. Loader_start ps = Ok effs
      \<and> init_calls effs = [''Config'', ''Database'', ''Api'']
      \<and> afterInitAll_calls effs = [''Api'', ''Database'', ''Config'']"
proof -
  from d(2) obtain dc where dd: "deps d = [dc]" "dep_name dc = ''Config''"
    by (auto simp: map_eq_Cons_conv)
  from a(2) obtain ac ad where da: "deps a = [ac, ad]" "dep_name ac = ''Config''"
    "dep_name ad = ''Database''"
    by (auto simp: map_eq_Cons_conv)
  note facts = c d(1) dd a(1) da
  from ps have cases: "ps \<in> {[c, d, a], [c, a, d], [d, c, a], [d, a, c], [a, c, d], [a, d, c]}"
    by (rule mset_eq_three)
  then have dist: "distinct (map name ps)"
    by (elim insertE emptyE) (simp_all add: facts)
  from cases have "\<exists>st. sortByDependencies ps = Ok st \<and> sorted_out st = [c, d, a]"
    by (elim insertE emptyE) (simp_all add: sortByDependencies_def visit.simps facts)
  then obtain st where st: "sortByDependencies ps = Ok st" "sorted_out st = [c, d, a]"
    by blast
  from h obtain mc md ma where
    hooks: "afterInitAll c = Some mc" "afterInitAll d = Some md" "afterInitAll a = Some ma"
    by auto
  from Loader_start_Ok[OF dist st(1)] show ?thesis
    by (auto simp: st(2) facts hooks)
qed

theorem start_Config_Database_Api_witness:
  "mset [Api, Config, Database] = mset [Config, Database, Api]
   \<and> (\<exists>effs. Loader_start [Api, Config, Database] = Ok effs
        \<and> init_calls effs = [''Config'', ''Database'', ''Api'']
        \<and> afterInitAll_calls effs = [''Api'', ''Database'', ''Config''])"
proof -
  have m: "mset [Api, Config, Database] = mset [Config, Database, Api]" by simp
  have "\<exists>effs. Loader_start [Api, Config, Database] = Ok effs
        \<and> init_calls effs = [''Config'', ''Database'', ''Api'']
        \<and> afterInitAll_calls effs = [''Api'', ''Database'', ''Config'']"
    by (rule start_Config_Database_Api[OF _ _ _ _ _ _ _ _ _ m])
       (simp_all add: Config_def Database_def Api_def deps_def)
  with m show ?thesis by blast
qed

section \<open>Properties of the event bus\<close>

declare emit.simps [simp del] on.simps [simp del] checkConditionalTriggers.simps [simp del]

lemma and_then_Some:
  "and_then r f = Some res \<longleftrightarrow>
     (\<exists>e s. r = Some (Threw e s) \<and> res = Threw e s) \<or> (\<exists>s. r = Some (Ok s) \<and> f s = Some res)"
  by (auto simp: and_then_def split: option.splits outcome.splits)

lemma and_then_simps [simp]:
  "and_then None f = None"
  "and_then (Some (Threw e s)) f = Some (Threw e s)"
  "and_then (Some (Ok s)) f = f s"
  by (simp_all add: and_then_def)


lemma single_calls_append [simp]:
  "single_calls e (xs @ ys) = single_calls e xs @ single_calls e ys"
  by (simp add: single_calls_def)

lemma single_calls_simps [simp]:
  "single_calls e [] = []"
  "single_calls e (DebugEmitting a # tr) = single_calls e tr"
  "single_calls e (DebugSkipping a # tr) = single_calls e tr"
  "single_calls e (TriggerCall k l # tr) = single_calls e tr"
  "single_calls e (RegisterCalled a # tr) = single_calls e tr"
  "single_calls e (InitializeCalled a # tr) = single_calls e tr"
  "single_calls e (SingleCall a l # tr) = (if a = e then l # single_calls e tr else single_calls e tr)"
  by (simp_all add: single_calls_def)

lemma is_fired_simps [simp]:
  "is_fired (log_effect x b) e = is_fired b e"
  "is_fired (set_trigger k t b) e = is_fired b e"
  "is_fired (delete_trigger k b) e = is_fired b e"
  "is_fired (push_listener ev l b) e = is_fired b e"
  "is_fired (mark_fired ev target b) e = (e = ev \<or> is_fired b e)"
  by (auto simp: is_fired_def log_effect_def set_trigger_def delete_trigger_def
        push_listener_def mark_fired_def get_entry_def split: option.splits)

lemma trace_simps [simp]:
  "trace (log_effect x b) = trace b @ [x]"
  "trace (set_trigger k t b) = trace b"
  "trace (delete_trigger k b) = trace b"
  "trace (push_listener ev l b) = trace b"
  "trace (mark_fired ev target b) = trace b"
  by (simp_all add: log_effect_def set_trigger_def delete_trigger_def push_listener_def
        mark_fired_def)

lemma frozen_refl [simp]: "frozen e b b"
  by (simp add: frozen_def)





text \<open>Listeners that do not call back into the bus.\<close>

lemma call_passive: "body l = [] \<Longrightarrow> call (Suc n) x l b = Some (Ok (log_effect x b))"
  by simp


lemma length_map_delete [simp]: "length (map_delete k xs) = length xs"
  by (induction k xs rule: map_delete.induct) auto




lemma single_calls_map_SingleCall [simp]:
  "single_calls x (map (\<lambda>l. SingleCall x (lid l)) ls) = map lid ls"
  by (induction ls) auto

lemma is_fired_new [simp]: "\<not> is_fired new_Events e"
  by (simp add: is_fired_def new_Events_def)


text \<open>A bus with no single subscription.\<close>

lemma trigger_calls_append [simp]:
  "trigger_calls (xs @ ys) = trigger_calls xs @ trigger_calls ys"
  by (simp add: trigger_calls_def)

lemma trigger_calls_simps [simp]:
  "trigger_calls [] = []"
  "trigger_calls (DebugEmitting a # tr) = trigger_calls tr"
  "trigger_calls (DebugSkipping a # tr) = trigger_calls tr"
  "trigger_calls (TriggerCall k l # tr) = l # trigger_calls tr"
  "trigger_calls (SingleCall a l # tr) = trigger_calls tr"
  "trigger_calls (RegisterCalled a # tr) = trigger_calls tr"
  "trigger_calls (InitializeCalled a # tr) = trigger_calls tr"
  by (simp_all add: trigger_calls_def)

lemma conditionalTriggers_simps [simp]:
  "conditionalTriggers (log_effect x b) = conditionalTriggers b"
  "conditionalTriggers (set_trigger k t b) = map_set k t (conditionalTriggers b)"
  "conditionalTriggers (delete_trigger k b) = map_delete k (conditionalTriggers b)"
  "conditionalTriggers (push_listener ev l b) = conditionalTriggers b"
  "conditionalTriggers (mark_fired ev target b) = conditionalTriggers b"
  by (simp_all add: log_effect_def set_trigger_def delete_trigger_def push_listener_def
        mark_fired_def)

lemma no_listeners_simps [simp]:
  "no_listeners new_Events"
  "no_listeners (log_effect x b) = no_listeners b"
  "no_listeners (set_trigger k t b) = no_listeners b"
  "no_listeners (delete_trigger k b) = no_listeners b"
  by (simp_all add: no_listeners_def new_Events_def log_effect_def set_trigger_def
        delete_trigger_def)



lemma shouldTrigger_cong:
  "(\<And>e. is_fired b' e = is_fired b e) \<Longrightarrow> shouldTrigger b' t = shouldTrigger b t"
  by (simp add: shouldTrigger_def list_all_iff list_ex_iff split: ConditionType.splits)


lemma shouldTrigger_simps [simp]:
  "shouldTrigger (log_effect x b) t = shouldTrigger b t"
  "shouldTrigger (set_trigger k t' b) t = shouldTrigger b t"
  "shouldTrigger (delete_trigger k b) t = shouldTrigger b t"
  by (rule shouldTrigger_cong, simp)+




lemma new_Events_simps [simp]:
  "trace new_Events = []" "conditionalTriggers new_Events = []" "entries new_Events e = None"
  by (simp_all add: new_Events_def)





text \<open>No operation of the bus calls a plugin hook.\<close>

lemma hook_calls_append [simp]: "hook_calls (xs @ ys) = hook_calls xs @ hook_calls ys"
  by (simp add: hook_calls_def)

lemma hook_calls_simps [simp]:
  "hook_calls [] = []"
  "hook_calls (DebugEmitting a # tr) = hook_calls tr"
  "hook_calls (DebugSkipping a # tr) = hook_calls tr"
  "hook_calls (TriggerCall k l # tr) = hook_calls tr"
  "hook_calls (SingleCall a l # tr) = hook_calls tr"
  "hook_calls (RegisterCalled a # tr) = RegisterCalled a # hook_calls tr"
  "hook_calls (InitializeCalled a # tr) = InitializeCalled a # hook_calls tr"
  by (simp_all add: hook_calls_def)

lemma hooks_kept_refl [simp]: "hooks_kept b b"
  by (simp add: hooks_kept_def)

lemma hooks_kept_trans: "hooks_kept b b1 \<Longrightarrow> hooks_kept b1 b2 \<Longrightarrow> hooks_kept b b2"
  by (simp add: hooks_kept_def)

lemma hooks_kept_writes [simp]:
  "hooks_kept b (set_trigger k t b)"
  "hooks_kept b (delete_trigger k b)"
  "hooks_kept b (push_listener ev l b)"
  "hooks_kept b (mark_fired ev target b)"
  "hooks_kept b (log_effect (DebugEmitting a) b)"
  "hooks_kept b (log_effect (DebugSkipping a) b)"
  "hooks_kept b (log_effect (TriggerCall k n) b)"
  "hooks_kept b (log_effect (SingleCall a n) b)"
  by (simp_all add: hooks_kept_def)

lemma emit_hooks_kept:
  "emit n ev b = Some res \<Longrightarrow> hooks_kept b (state_of res)"
  and on_hooks_kept:
  "on n t b = Some res \<Longrightarrow> hooks_kept b (state_of res)"
  and check_hooks_kept:
  "checkConditionalTriggers n i b = Some res \<Longrightarrow> hooks_kept b (state_of res)"
  and forEach_hooks_kept:
  "forEach_listener n ev ls b = Some res \<Longrightarrow> hooks_kept b (state_of res)"
  and call_hooks_kept:
  "call n x l b = Some res \<Longrightarrow> hooks_kept b (log_effect x b) \<Longrightarrow> hooks_kept b (state_of res)"
  and run_hooks_kept:
  "run n ss b = Some res \<Longrightarrow> hooks_kept b (state_of res)"
  and exec_hooks_kept:
  "exec n s b = Some res \<Longrightarrow> hooks_kept b (state_of res)"
proof (induction n ev b and n t b and n i b and n ev ls b and n x l b and n ss b and n s b
    arbitrary: res and res and res and res and res and res and res
    rule: emit_on_checkConditionalTriggers_forEach_listener_call_run_exec.induct)
  case (1 n event b)
  show ?case
  proof (cases "fired (get_entry b event)")
    case True
    with "1.prems" show ?thesis by (auto simp: emit.simps)
  next
    case False
    let ?b0 = "log_effect (DebugEmitting event) b"
    from "1.prems" False consider
      (thr) err s where "forEach_listener n event (listeners (get_entry b event)) ?b0 = Some (Threw err s)"
        "res = Threw err s"
      | (ok) s where "forEach_listener n event (listeners (get_entry b event)) ?b0 = Some (Ok s)"
        "checkConditionalTriggers n 0 (mark_fired event (get_entry b event) s) = Some res"
      by (auto simp: emit.simps and_then_Some)
    then show ?thesis
    proof cases
      case thr
      from "1.IH"(1)[OF False thr(1)] have "hooks_kept ?b0 s" by simp
      then show ?thesis using thr(2) by (auto intro: hooks_kept_trans[of b ?b0])
    next
      case ok
      from "1.IH"(1)[OF False ok(1)] have a: "hooks_kept ?b0 s" by simp
      from "1.IH"(2)[OF False ok(1) ok(2)]
      have b: "hooks_kept (mark_fired event (get_entry b event) s) (state_of res)" .
      have "hooks_kept b ?b0" by simp
      from hooks_kept_trans[OF this a] have "hooks_kept b s" .
      from hooks_kept_trans[OF this hooks_kept_writes(4)]
      have "hooks_kept b (mark_fired event (get_entry b event) s)" .
      from hooks_kept_trans[OF this b] show ?thesis .
    qed
  qed
next
  case (2 n trigger b)
  show ?case
  proof (cases "condition trigger")
    case Single
    show ?thesis
    proof (cases "events trigger")
      case Nil
      with Single "2.prems" show ?thesis by (auto simp: on.simps)
    next
      case (Cons ev rest)
      show ?thesis
      proof (cases rest)
        case Nil
        with Cons Single "2.prems"
        have c: "checkConditionalTriggers n 0 (push_listener ev (listener trigger) b) = Some res"
          by (simp add: on.simps)
        from "2.IH"(1)[OF Single Cons Nil c]
        show ?thesis by (rule hooks_kept_trans[OF hooks_kept_writes(3)])
      next
        case (Cons a list)
        with \<open>events trigger = ev # rest\<close> Single "2.prems" show ?thesis
          by (auto simp: on.simps)
      qed
    qed
  next
    case AnyOf
    with "2.prems" have c: "checkConditionalTriggers n 0
        (set_trigger (buildConditionalKey (condition trigger) (events trigger)) trigger b) = Some res"
      by (simp add: on.simps)
    from "2.IH"(2)[OF AnyOf c] show ?thesis by (rule hooks_kept_trans[OF hooks_kept_writes(1)])
  next
    case AllOf
    with "2.prems" have c: "checkConditionalTriggers n 0
        (set_trigger (buildConditionalKey (condition trigger) (events trigger)) trigger b) = Some res"
      by (simp add: on.simps)
    from "2.IH"(3)[OF AllOf c] show ?thesis by (rule hooks_kept_trans[OF hooks_kept_writes(1)])
  next
    case (Unknown c)
    with "2.prems" show ?thesis by (auto simp: on.simps)
  qed
next
  case (3 n i b)
  show ?case
  proof (cases "i < length (conditionalTriggers b)")
    case False
    with "3.prems" show ?thesis by (auto simp: checkConditionalTriggers.simps)
  next
    case lt: True
    show ?thesis
    proof (cases "conditionalTriggers b ! i")
      case None
      with lt "3.prems" have "checkConditionalTriggers n (Suc i) b = Some res"
        by (simp add: checkConditionalTriggers.simps)
      from "3.IH"(1)[OF lt None this] show ?thesis .
    next
      case (Some kt)
      obtain key t where kt: "kt = (key, t)" by (cases kt)
      show ?thesis
      proof (cases "shouldTrigger b t")
        case False
        with lt Some kt "3.prems" have "checkConditionalTriggers n (Suc i) b = Some res"
          by (simp add: checkConditionalTriggers.simps)
        from "3.IH"(4)[OF lt Some kt[symmetric] False this] show ?thesis .
      next
        case True
        let ?x = "TriggerCall key (lid (listener t))"
        from True lt Some kt "3.prems" obtain m where m: "n = Suc m"
          by (cases n) (auto simp: checkConditionalTriggers.simps)
        from True lt Some kt "3.prems" m consider
          (thr) err s where "call n ?x (listener t) b = Some (Threw err s)" "res = Threw err s"
          | (ok) s where "call n ?x (listener t) b = Some (Ok s)"
            "checkConditionalTriggers m (Suc i) (delete_trigger key s) = Some res"
          by (auto simp: checkConditionalTriggers.simps and_then_Some)
        then show ?thesis
        proof cases
          case thr
          from "3.IH"(2)[OF lt Some kt[symmetric] True m thr(1)] thr(2) show ?thesis by simp
        next
          case ok
          from "3.IH"(2)[OF lt Some kt[symmetric] True m ok(1)] have a: "hooks_kept b s" by simp
          from "3.IH"(3)[OF lt Some kt[symmetric] True m ok(1) ok(2)]
          have "hooks_kept (delete_trigger key s) (state_of res)" .
          from hooks_kept_trans[OF hooks_kept_trans[OF a hooks_kept_writes(2)] this]
          show ?thesis .
        qed
      qed
    qed
  qed
next
  case (4 n event b)
  then show ?case by auto
next
  case (5 n event l ls b)
  from "5.prems"(1) consider
    (thr) err s where "call n (SingleCall event (lid l)) l b = Some (Threw err s)" "res = Threw err s"
    | (ok) s where "call n (SingleCall event (lid l)) l b = Some (Ok s)"
      "forEach_listener n event ls s = Some res"
    by (auto simp: and_then_Some)
  then show ?case
  proof cases
    case thr
    from "5.IH"(1)[OF thr(1)] thr(2) show ?thesis by simp
  next
    case ok
    from "5.IH"(1)[OF ok(1)] have "hooks_kept b s" by simp
    from hooks_kept_trans[OF this "5.IH"(2)[OF ok(1) ok(2)]] show ?thesis .
  qed
next
  case (6 x l b)
  then show ?case by simp
next
  case (7 n x l b)
  from "7.prems"(1) have "run n (body l) (log_effect x b) = Some res" by simp
  from hooks_kept_trans[OF "7.prems"(2) "7.IH"[OF this]] show ?case .
next
  case (8 n b)
  then show ?case by auto
next
  case (9 n s ss b)
  from "9.prems"(1) consider
    (thr) err s' where "exec n s b = Some (Threw err s')" "res = Threw err s'"
    | (ok) s' where "exec n s b = Some (Ok s')" "run n ss s' = Some res"
    by (auto simp: and_then_Some)
  then show ?case
  proof cases
    case thr
    from "9.IH"(1)[OF thr(1)] thr(2) show ?thesis by simp
  next
    case ok
    from "9.IH"(1)[OF ok(1)] have "hooks_kept b s'" by simp
    from hooks_kept_trans[OF this "9.IH"(2)[OF ok(1) ok(2)]] show ?thesis .
  qed
next
  case (10 n event b)
  then show ?case by simp
next
  case (11 n trigger b)
  then show ?case by simp
next
  case (12 n ev thn els b)
  then show ?case by simp
qed

lemma with_events_Some:
  "with_events r res = Some out \<longleftrightarrow>
     (\<exists>b. res = Some (Ok b) \<and> out = Ok (r\<lparr>reg_events := b\<rparr>))
     \<or> (\<exists>e b. res = Some (Threw e b) \<and> out = Threw e (r\<lparr>reg_events := b\<rparr>))"
  by (auto simp: with_events_def split: option.splits outcome.splits)

lemma register_calls_simps [simp]:
  "register_calls [] = []"
  "register_calls (p # ps) =
     (if register_hook p = None then [] else [RegisterCalled (plugin_name p)]) @ register_calls ps"
  "register_calls (xs @ ys) = register_calls xs @ register_calls ys"
  by (simp_all add: register_calls_def)

text \<open>
  One registration: a name already present throws and changes nothing; otherwise the
  plugin is appended and its register hook, if any, is called.
\<close>

lemma register_cases:
  assumes "register n p r = Some out"
  shows "(plugin_name p \<in> fst ` set (reg_plugins r)
            \<and> out = Threw (AlreadyRegistered (plugin_name p)) r)
       \<or> (plugin_name p \<notin> fst ` set (reg_plugins r)
            \<and> reg_plugins (state_of out) = reg_plugins r @ [(plugin_name p, p)]
            \<and> hook_calls (trace (reg_events (state_of out)))
                = hook_calls (trace (reg_events r)) @ register_calls [p])"
proof (cases "plugin_name p \<in> fst ` set (reg_plugins r)")
  case True
  with assms show ?thesis by (simp add: register_def)
next
  case False
  let ?r1 = "r\<lparr>reg_plugins := reg_plugins r @ [(plugin_name p, p)]\<rparr>"
  show ?thesis
  proof (cases "register_hook p")
    case None
    with False assms show ?thesis by (auto simp: register_def)
  next
    case (Some prog)
    let ?b0 = "log_effect (RegisterCalled (plugin_name p)) (reg_events ?r1)"
    from Some False assms have "with_events ?r1 (run n prog ?b0) = Some out"
      by (simp add: register_def run_hook_def)
    then obtain res where res: "run n prog ?b0 = Some res"
      "state_of out = ?r1\<lparr>reg_events := state_of res\<rparr>"
      by (auto simp: with_events_Some)
    from run_hooks_kept[OF res(1)] have "hook_calls (trace (state_of res))
        = hook_calls (trace (reg_events r)) @ [RegisterCalled (plugin_name p)]"
      by (simp add: hooks_kept_def)
    with res(2) Some False show ?thesis by simp
  qed
qed

lemma register_each_calls:
  assumes "register_each n xs r = Some out" and "distinct (map plugin_name xs)"
    and "plugin_name ` set xs \<inter> fst ` set (reg_plugins r) = {}"
  shows "prefix (hook_calls (trace (reg_events (state_of out))))
           (hook_calls (trace (reg_events r)) @ register_calls xs)
       \<and> (\<forall>r'. out = Ok r' \<longrightarrow>
             hook_calls (trace (reg_events r'))
               = hook_calls (trace (reg_events r)) @ register_calls xs
           \<and> fst ` set (reg_plugins r') = fst ` set (reg_plugins r) \<union> plugin_name ` set xs)"
  using assms
proof (induction xs arbitrary: r)
  case Nil
  then show ?case by auto
next
  case (Cons p xs)
  from Cons.prems(3) have fresh: "plugin_name p \<notin> fst ` set (reg_plugins r)" by auto
  from Cons.prems(1) consider
    (thr) e s where "register n p r = Some (Threw e s)" "out = Threw e s"
    | (ok) s where "register n p r = Some (Ok s)" "register_each n xs s = Some out"
    by (auto simp: and_then_Some)
  then show ?case
  proof cases
    case thr
    from register_cases[OF thr(1)] fresh thr(2) show ?thesis
      by (auto simp: prefix_def)
  next
    case ok
    from register_cases[OF ok(1)] fresh have
      s: "reg_plugins s = reg_plugins r @ [(plugin_name p, p)]"
      "hook_calls (trace (reg_events s)) = hook_calls (trace (reg_events r)) @ register_calls [p]"
      by auto
    from Cons.prems(2,3) s(1) have "plugin_name ` set xs \<inter> fst ` set (reg_plugins s) = {}"
      by auto
    from Cons.IH[OF ok(2) _ this] Cons.prems(2) s show ?thesis
      by (auto simp: image_Un)
  qed
qed

lemma register_each_append:
  "register_each n (xs @ ys) r = and_then (register_each n xs r) (register_each n ys)"
  by (induction xs arbitrary: r) (auto simp: and_then_def split: option.splits outcome.splits)

lemma register_each_duplicate:
  assumes "register_each n (xs @ q # ys) r = Some out" and "distinct (map plugin_name xs)"
    and "plugin_name ` set xs \<inter> fst ` set (reg_plugins r) = {}"
    and "plugin_name q \<in> plugin_name ` set xs"
  shows "\<exists>e s. out = Threw e s
       \<and> prefix (hook_calls (trace (reg_events s)))
           (hook_calls (trace (reg_events r)) @ register_calls xs)"
proof -
  from assms(1) consider
    (thr) e s where "register_each n xs r = Some (Threw e s)" "out = Threw e s"
    | (ok) s where "register_each n xs r = Some (Ok s)" "register_each n (q # ys) s = Some out"
    by (auto simp: register_each_append and_then_Some)
  then show ?thesis
  proof cases
    case thr
    from register_each_calls[OF thr(1) assms(2,3)] thr(2) show ?thesis by simp
  next
    case ok
    from register_each_calls[OF ok(1) assms(2,3)] have
      s: "hook_calls (trace (reg_events s)) = hook_calls (trace (reg_events r)) @ register_calls xs"
      "fst ` set (reg_plugins s) = fst ` set (reg_plugins r) \<union> plugin_name ` set xs"
      by auto
    with assms(4) have "plugin_name q \<in> fst ` set (reg_plugins s)" by simp
    then have "register n q s = Some (Threw (AlreadyRegistered (plugin_name q)) s)"
      by (simp add: register_def)
    with ok(2) have "out = Threw (AlreadyRegistered (plugin_name q)) s" by simp
    with s(1) show ?thesis by simp
  qed
qed

lemma register_each_passive:
  assumes "\<forall>p \<in> set xs. register_hook p = None \<or> register_hook p = Some []"
    and "distinct (map plugin_name xs)"
    and "plugin_name ` set xs \<inter> fst ` set (reg_plugins r) = {}"
  shows "\<exists>s. register_each n xs r = Some (Ok s)"
  using assms
proof (induction xs arbitrary: r)
  case Nil
  then show ?case by simp
next
  case (Cons p xs)
  from Cons.prems(3) have fresh: "plugin_name p \<notin> fst ` set (reg_plugins r)" by auto
  from Cons.prems(1) have "register_hook p = None \<or> register_hook p = Some []" by simp
  with fresh obtain s where s: "register n p r = Some (Ok s)"
    by (auto simp: register_def run_hook_def with_events_def)
  from register_cases[OF s] fresh have "reg_plugins s = reg_plugins r @ [(plugin_name p, p)]"
    by auto
  with Cons.prems(2,3) have "plugin_name ` set xs \<inter> fst ` set (reg_plugins s) = {}"
    by auto
  from Cons.IH[OF _ _ this] Cons.prems(1,2) obtain s' where "register_each n xs s = Some (Ok s')"
    by auto
  with s show ?case by simp
qed

subsection \<open>Runs with re-entrant listeners, and runs whose listeners do not call back\<close>

lemma emittings_append [simp]: "emittings e (xs @ ys) = emittings e xs + emittings e ys"
  by (simp add: emittings_def)

lemma emittings_simps [simp]:
  "emittings e [] = 0"
  "emittings e (DebugEmitting a # tr) = (if a = e then Suc (emittings e tr) else emittings e tr)"
  "emittings e (DebugSkipping a # tr) = emittings e tr"
  "emittings e (TriggerCall k l # tr) = emittings e tr"
  "emittings e (SingleCall a l # tr) = emittings e tr"
  "emittings e (RegisterCalled a # tr) = emittings e tr"
  "emittings e (InitializeCalled a # tr) = emittings e tr"
  by (simp_all add: emittings_def)


lemma unemitted_refl [simp]: "unemitted e b b"
  by (simp add: unemitted_def)


lemma unemitted_prefix: "unemitted e b b' \<Longrightarrow> prefix (trace b) (trace b')"
  by (simp add: unemitted_def)







lemma get_entry_simps [simp]:
  "get_entry (log_effect x b) e = get_entry b e"
  "get_entry (set_trigger k t b) e = get_entry b e"
  "get_entry (delete_trigger k b) e = get_entry b e"
  "ev \<noteq> e \<Longrightarrow> get_entry (push_listener ev l b) e = get_entry b e"
  "ev \<noteq> e \<Longrightarrow> get_entry (mark_fired ev target b) e = get_entry b e"
  "listeners (get_entry (push_listener e l b) e) = listeners (get_entry b e) @ [l]"
  by (simp_all add: get_entry_def log_effect_def set_trigger_def delete_trigger_def
        push_listener_def mark_fired_def split: option.splits)

lemma unfired_listener_writes [simp]:
  "unfired_listener e l (log_effect x b) = unfired_listener e l b"
  "unfired_listener e l (set_trigger k t b) = unfired_listener e l b"
  "unfired_listener e l (delete_trigger k b) = unfired_listener e l b"
  "unfired_listener e l b \<Longrightarrow> unfired_listener e l (push_listener ev l' b)"
  "ev \<noteq> e \<Longrightarrow> unfired_listener e l (mark_fired ev target b) = unfired_listener e l b"
  by (cases "ev = e"; simp add: unfired_listener_def)+







lemma shouldTrigger_entries:
  "entries b' = entries b \<Longrightarrow> shouldTrigger b' t = shouldTrigger b t"
  by (rule shouldTrigger_cong) (simp add: is_fired_def)


lemma entries_simps [simp]:
  "entries (log_effect x b) = entries b"
  "entries (set_trigger k t b) = entries b"
  "entries (delete_trigger k b) = entries b"
  by (simp_all add: log_effect_def set_trigger_def delete_trigger_def)





lemma trigger_calls_for_append [simp]:
  "trigger_calls_for k (xs @ ys) = trigger_calls_for k xs @ trigger_calls_for k ys"
  by (simp add: trigger_calls_for_def)

lemma trigger_calls_for_simps [simp]:
  "trigger_calls_for k [] = []"
  "trigger_calls_for k (DebugEmitting a # tr) = trigger_calls_for k tr"
  "trigger_calls_for k (DebugSkipping a # tr) = trigger_calls_for k tr"
  "trigger_calls_for k (TriggerCall k' l # tr) =
     (if k' = k then l # trigger_calls_for k tr else trigger_calls_for k tr)"
  "trigger_calls_for k (SingleCall a l # tr) = trigger_calls_for k tr"
  "trigger_calls_for k (RegisterCalled a # tr) = trigger_calls_for k tr"
  "trigger_calls_for k (InitializeCalled a # tr) = trigger_calls_for k tr"
  by (simp_all add: trigger_calls_for_def)

lemma trigger_calls_for_SingleCalls [simp]:
  "trigger_calls_for k (map (\<lambda>l. SingleCall x (lid l)) ls) = []"
  by (induction ls) auto

lemma live_nth:
  "i < length xs \<Longrightarrow> xs ! i = Some kv \<Longrightarrow> kv \<in> set (live xs)"
proof (induction xs arbitrary: i rule: live.induct)
  case 1
  then show ?case by simp
next
  case (2 rest)
  then show ?case by (cases i) auto
next
  case (3 kv' rest)
  then show ?case by (cases i) auto
qed


text \<open>What \<^verbatim>\<open>Map.prototype.set\<close> and a sweep do to the live entries.\<close>

lemma live_map_set_keys:
  "fst ` set (live (map_set k v xs)) = insert k (fst ` set (live xs))"
  by (induction k v xs rule: map_set.induct) auto

lemma live_map_set_distinct:
  "distinct (map fst (live xs)) \<Longrightarrow> distinct (map fst (live (map_set k v xs)))"
  by (induction k v xs rule: map_set.induct) (auto simp: live_map_set_keys)








text \<open>The bus after a sweep from the start.\<close>

lemma sweep_entries [simp]: "entries (sweep_from 0 b) = entries b"
  by (simp add: sweep_from_def)

lemma sweep_is_fired [simp]: "is_fired (sweep_from 0 b) e = is_fired b e"
  by (simp add: is_fired_def)

lemma sweep_get_entry [simp]: "get_entry (sweep_from 0 b) e = get_entry b e"
  by (simp add: get_entry_def)

lemma sweep_length [simp]:
  "length (conditionalTriggers (sweep_from 0 b)) = length (conditionalTriggers b)"
  by (simp add: sweep_from_def)





lemma sweep_passive_listeners [simp]:
  "passive_listeners (sweep_from 0 b) = passive_listeners b"
  by (simp add: passive_listeners_def)


lemma sweep_shouldTrigger [simp]: "shouldTrigger (sweep_from 0 b) t = shouldTrigger b t"
  by (rule shouldTrigger_entries) simp










lemma unique_keys_set_trigger: "unique_keys b \<Longrightarrow> unique_keys (set_trigger k t b)"
  by (simp add: unique_keys_def live_map_set_distinct)










lemma unique_keys_nth:
  assumes "unique_keys b" and "i < length (conditionalTriggers b)"
    and "j < length (conditionalTriggers b)"
    and "conditionalTriggers b ! i = Some (k, t)" and "conditionalTriggers b ! j = Some (k, t')"
  shows "t' = t"
proof -
  from assms(1) have d: "distinct (map fst (live (conditionalTriggers b)))"
    by (simp add: unique_keys_def)
  from map_of_is_SomeI[OF d live_nth[OF assms(2,4)]] map_of_is_SomeI[OF d live_nth[OF assms(3,5)]]
  show ?thesis by simp
qed









lemma emittings_SingleCalls [simp]:
  "emittings e (map (\<lambda>l. SingleCall x (lid l)) ls) = 0"
  by (induction ls) auto








lemma reruns_refl [simp]: "reruns L e b b"
  by (simp add: reruns_def)









text \<open>
  A property of the bus that each write keeps is kept by every operation, whatever the
  listeners do and whether the operation returns or throws.
\<close>

lemma bus_invariant_emit:
  assumes w: "\<And>x b. P b \<Longrightarrow> P (log_effect x b)" "\<And>k t b. P b \<Longrightarrow> P (set_trigger k t b)"
    "\<And>k b. P b \<Longrightarrow> P (delete_trigger k b)" "\<And>ev l b. P b \<Longrightarrow> P (push_listener ev l b)"
    "\<And>ev target b. P b \<Longrightarrow> P (mark_fired ev target b)"
  shows "emit n ev b = Some res \<Longrightarrow> P b \<Longrightarrow> P (state_of res)"
  and bus_invariant_on:
  "on n t b = Some res \<Longrightarrow> P b \<Longrightarrow> P (state_of res)"
  and bus_invariant_check:
  "checkConditionalTriggers n i b = Some res \<Longrightarrow> P b \<Longrightarrow> P (state_of res)"
  and bus_invariant_forEach:
  "forEach_listener n ev ls b = Some res \<Longrightarrow> P b \<Longrightarrow> P (state_of res)"
  and bus_invariant_call:
  "call n x l b = Some res \<Longrightarrow> P b \<Longrightarrow> P (state_of res)"
  and bus_invariant_run:
  "run n ss b = Some res \<Longrightarrow> P b \<Longrightarrow> P (state_of res)"
  and bus_invariant_exec:
  "exec n st b = Some res \<Longrightarrow> P b \<Longrightarrow> P (state_of res)"
proof (induction n ev b and n t b and n i b and n ev ls b and n x l b and n ss b and n st b
    arbitrary: res and res and res and res and res and res and res
    rule: emit_on_checkConditionalTriggers_forEach_listener_call_run_exec.induct)
  case (1 n event b)
  note inv = "1.prems"(2)
  show ?case
  proof (cases "fired (get_entry b event)")
    case True
    with "1.prems"(1) inv w(1) show ?thesis by (auto simp: emit.simps)
  next
    case False
    let ?b0 = "log_effect (DebugEmitting event) b"
    from "1.prems"(1) False consider
      (thr) err s where "forEach_listener n event (listeners (get_entry b event)) ?b0 = Some (Threw err s)"
        "res = Threw err s"
      | (ok) s where "forEach_listener n event (listeners (get_entry b event)) ?b0 = Some (Ok s)"
        "checkConditionalTriggers n 0 (mark_fired event (get_entry b event) s) = Some res"
      by (auto simp: emit.simps and_then_Some)
    then show ?thesis
    proof cases
      case thr
      from "1.IH"(1)[OF False thr(1) w(1)[OF inv]] thr(2) show ?thesis by simp
    next
      case ok
      from "1.IH"(1)[OF False ok(1) w(1)[OF inv]] have "P s" by simp
      from "1.IH"(2)[OF False ok(1) ok(2) w(5)[OF this]] show ?thesis .
    qed
  qed
next
  case (2 n trigger b)
  note inv = "2.prems"(2)
  show ?case
  proof (cases "condition trigger")
    case Single
    show ?thesis
    proof (cases "events trigger")
      case Nil
      with Single "2.prems" show ?thesis by (auto simp: on.simps)
    next
      case (Cons ev rest)
      show ?thesis
      proof (cases rest)
        case Nil
        with Cons Single "2.prems"(1)
        have c: "checkConditionalTriggers n 0 (push_listener ev (listener trigger) b) = Some res"
          by (simp add: on.simps)
        from "2.IH"(1)[OF Single Cons Nil c w(4)[OF inv]] show ?thesis .
      next
        case (Cons a list)
        with \<open>events trigger = ev # rest\<close> Single "2.prems" show ?thesis
          by (auto simp: on.simps)
      qed
    qed
  next
    case AnyOf
    with "2.prems"(1) have c: "checkConditionalTriggers n 0
        (set_trigger (buildConditionalKey (condition trigger) (events trigger)) trigger b) = Some res"
      by (simp add: on.simps)
    from "2.IH"(2)[OF AnyOf c w(2)[OF inv]] show ?thesis .
  next
    case AllOf
    with "2.prems"(1) have c: "checkConditionalTriggers n 0
        (set_trigger (buildConditionalKey (condition trigger) (events trigger)) trigger b) = Some res"
      by (simp add: on.simps)
    from "2.IH"(3)[OF AllOf c w(2)[OF inv]] show ?thesis .
  next
    case (Unknown c)
    with "2.prems" show ?thesis by (auto simp: on.simps)
  qed
next
  case (3 n i b)
  note inv = "3.prems"(2)
  show ?case
  proof (cases "i < length (conditionalTriggers b)")
    case False
    with "3.prems" show ?thesis by (auto simp: checkConditionalTriggers.simps)
  next
    case lt: True
    show ?thesis
    proof (cases "conditionalTriggers b ! i")
      case None
      with lt "3.prems"(1) have "checkConditionalTriggers n (Suc i) b = Some res"
        by (simp add: checkConditionalTriggers.simps)
      from "3.IH"(1)[OF lt None this inv] show ?thesis .
    next
      case (Some kt)
      obtain key t where kt: "kt = (key, t)" by (cases kt)
      show ?thesis
      proof (cases "shouldTrigger b t")
        case False
        with lt Some kt "3.prems"(1) have "checkConditionalTriggers n (Suc i) b = Some res"
          by (simp add: checkConditionalTriggers.simps)
        from "3.IH"(4)[OF lt Some kt[symmetric] False this inv] show ?thesis .
      next
        case True
        let ?x = "TriggerCall key (lid (listener t))"
        from True lt Some kt "3.prems"(1) obtain m where m: "n = Suc m"
          by (cases n) (auto simp: checkConditionalTriggers.simps)
        from True lt Some kt "3.prems"(1) m consider
          (thr) err s where "call n ?x (listener t) b = Some (Threw err s)" "res = Threw err s"
          | (ok) s where "call n ?x (listener t) b = Some (Ok s)"
            "checkConditionalTriggers m (Suc i) (delete_trigger key s) = Some res"
          by (auto simp: checkConditionalTriggers.simps and_then_Some)
        then show ?thesis
        proof cases
          case thr
          from "3.IH"(2)[OF lt Some kt[symmetric] True m thr(1) inv] thr(2) show ?thesis by simp
        next
          case ok
          from "3.IH"(2)[OF lt Some kt[symmetric] True m ok(1) inv] have "P s" by simp
          from "3.IH"(3)[OF lt Some kt[symmetric] True m ok(1) ok(2) w(3)[OF this]]
          show ?thesis .
        qed
      qed
    qed
  qed
next
  case (4 n event b)
  then show ?case by auto
next
  case (5 n event l ls b)
  from "5.prems"(1) consider
    (thr) err s where "call n (SingleCall event (lid l)) l b = Some (Threw err s)" "res = Threw err s"
    | (ok) s where "call n (SingleCall event (lid l)) l b = Some (Ok s)"
      "forEach_listener n event ls s = Some res"
    by (auto simp: and_then_Some)
  then show ?case
  proof cases
    case thr
    from "5.IH"(1)[OF thr(1) "5.prems"(2)] thr(2) show ?thesis by simp
  next
    case ok
    from "5.IH"(1)[OF ok(1) "5.prems"(2)] have "P s" by simp
    from "5.IH"(2)[OF ok(1) ok(2) this] show ?thesis .
  qed
next
  case (6 x l b)
  then show ?case by simp
next
  case (7 n x l b)
  from "7.prems"(1) have "run n (body l) (log_effect x b) = Some res" by simp
  from "7.IH"[OF this w(1)[OF "7.prems"(2)]] show ?case .
next
  case (8 n b)
  then show ?case by auto
next
  case (9 n st ss b)
  from "9.prems"(1) consider
    (thr) err s' where "exec n st b = Some (Threw err s')" "res = Threw err s'"
    | (ok) s' where "exec n st b = Some (Ok s')" "run n ss s' = Some res"
    by (auto simp: and_then_Some)
  then show ?case
  proof cases
    case thr
    from "9.IH"(1)[OF thr(1) "9.prems"(2)] thr(2) show ?thesis by simp
  next
    case ok
    from "9.IH"(1)[OF ok(1) "9.prems"(2)] have "P s'" by simp
    from "9.IH"(2)[OF ok(1) ok(2) this] show ?thesis .
  qed
next
  case (10 n event b)
  then show ?case by simp
next
  case (11 n trigger b)
  then show ?case by simp
next
  case (12 n ev thn els b)
  then show ?case by simp
qed

lemma live_map_delete_subset: "set (live (map_delete k xs)) \<subseteq> set (live xs)"
  by (induction k xs rule: map_delete.induct) auto

lemma live_map_delete_distinct:
  "distinct (map fst (live xs)) \<Longrightarrow> distinct (map fst (live (map_delete k xs)))"
proof (induction k xs rule: map_delete.induct)
  case (1 k)
  then show ?case by simp
next
  case (2 k rest)
  then show ?case by simp
next
  case (3 k k' v' rest)
  with live_map_delete_subset[of k rest] show ?case by (auto simp: image_iff)
qed

text \<open>Every bus that a program has built from a new one holds each trigger key once.\<close>

lemma run_unique_keys:
  assumes "run n prog b = Some res" and "unique_keys b"
  shows "unique_keys (state_of res)"
proof (rule bus_invariant_run[where P = unique_keys, OF _ _ _ _ _ assms])
  show "\<And>x b. unique_keys b \<Longrightarrow> unique_keys (log_effect x b)"
    by (simp add: unique_keys_def)
  show "\<And>k t b. unique_keys b \<Longrightarrow> unique_keys (set_trigger k t b)"
    by (rule unique_keys_set_trigger)
  show "\<And>k b. unique_keys b \<Longrightarrow> unique_keys (delete_trigger k b)"
    by (simp add: unique_keys_def live_map_delete_distinct)
  show "\<And>ev l b. unique_keys b \<Longrightarrow> unique_keys (push_listener ev l b)"
    by (simp add: unique_keys_def)
  show "\<And>ev target b. unique_keys b \<Longrightarrow> unique_keys (mark_fired ev target b)"
    by (simp add: unique_keys_def)
qed

lemma unique_keys_new [simp]: "unique_keys new_Events"
  by (simp add: unique_keys_def)

section \<open>The claims about the event bus and the registry\<close>










text \<open>
  C5, as stated, refuted: a plugin with both hooks registered twice. The constructor
  throws the duplicate-name error, and the register hook of the original has run.
\<close>

theorem duplicate_name_counterexample:
  "Registry_new 1 [dup_plugin, dup_plugin] =
     Some (Threw (AlreadyRegistered ''dup'')
             \<lparr>reg_plugins = [(''dup'', dup_plugin)],
              reg_events = log_effect (RegisterCalled ''dup'') new_Events\<rparr>)"
  by (simp add: Registry_new_def register_def run_hook_def with_events_def dup_plugin_def)

text \<open>
  C5, amended. Let the descriptors be \<open>xs @ q # ys\<close>, where the names of \<open>xs\<close> are
  distinct and \<open>q\<close> is the first descriptor whose name is already taken. The constructor
  never returns normally. Whenever it throws, the hook calls made so far are an initial
  part of the register hooks of \<open>xs\<close>, in order: no initialize hook has run, and no hook of
  \<open>q\<close> or of a later descriptor. Whenever the registration of \<open>xs\<close> completes (the
  register hooks of \<open>xs\<close> have returned, whatever they did on the bus), the constructor
  throws the duplicate-name error for \<open>q\<close> from the state that registration has left,
  and the hook calls made are exactly the register hooks of \<open>xs\<close>, that of the original
  of \<open>q\<close> included. The registration of \<open>xs\<close> does complete when its register hooks are
  absent or do nothing.
\<close>

theorem duplicate_name_aborts_registration:
  assumes "distinct (map plugin_name xs)" and "plugin_name q \<in> plugin_name ` set xs"
  shows "(\<forall>r. Registry_new n (xs @ q # ys) \<noteq> Some (Ok r))
       \<and> (\<forall>e r. Registry_new n (xs @ q # ys) = Some (Threw e r) \<longrightarrow>
              prefix (hook_calls (trace (reg_events r))) (register_calls xs))
       \<and> (\<forall>s. register_each n xs \<lparr>reg_plugins = [], reg_events = new_Events\<rparr> = Some (Ok s) \<longrightarrow>
              Registry_new n (xs @ q # ys) = Some (Threw (AlreadyRegistered (plugin_name q)) s)
            \<and> hook_calls (trace (reg_events s)) = register_calls xs)
       \<and> ((\<forall>p \<in> set xs. register_hook p = None \<or> register_hook p = Some []) \<longrightarrow>
              (\<exists>r. Registry_new n (xs @ q # ys)
                      = Some (Threw (AlreadyRegistered (plugin_name q)) r)
                  \<and> hook_calls (trace (reg_events r)) = register_calls xs))"
proof -
  let ?r0 = "\<lparr>reg_plugins = [], reg_events = new_Events\<rparr>"
  have fresh: "plugin_name ` set xs \<inter> fst ` set (reg_plugins ?r0) = {}" by simp
  have h0: "hook_calls (trace (reg_events ?r0)) = []" by simp
  have reg: "\<And>out. Registry_new n (xs @ q # ys) = Some out \<Longrightarrow>
      \<exists>e s. register_each n (xs @ q # ys) ?r0 = Some (Threw e s) \<and> out = Threw e s"
  proof -
    fix out assume a: "Registry_new n (xs @ q # ys) = Some out"
    show "\<exists>e s. register_each n (xs @ q # ys) ?r0 = Some (Threw e s) \<and> out = Threw e s"
    proof (cases "register_each n (xs @ q # ys) ?r0")
      case None
      with a show ?thesis by (simp add: Registry_new_def)
    next
      case (Some o1)
      from register_each_duplicate[OF Some assms(1) fresh assms(2)] obtain e s where
        "o1 = Threw e s" by blast
      with Some a show ?thesis by (auto simp: Registry_new_def)
    qed
  qed
  have 1: "\<forall>r. Registry_new n (xs @ q # ys) \<noteq> Some (Ok r)"
    using reg by fastforce
  have 2: "\<forall>e r. Registry_new n (xs @ q # ys) = Some (Threw e r) \<longrightarrow>
              prefix (hook_calls (trace (reg_events r))) (register_calls xs)"
  proof (intro allI impI)
    fix e r assume "Registry_new n (xs @ q # ys) = Some (Threw e r)"
    from reg[OF this] have "register_each n (xs @ q # ys) ?r0 = Some (Threw e r)" by simp
    from register_each_duplicate[OF this assms(1) fresh assms(2)]
    show "prefix (hook_calls (trace (reg_events r))) (register_calls xs)" by simp
  qed
  have 3: "\<forall>s. register_each n xs ?r0 = Some (Ok s) \<longrightarrow>
              Registry_new n (xs @ q # ys) = Some (Threw (AlreadyRegistered (plugin_name q)) s)
            \<and> hook_calls (trace (reg_events s)) = register_calls xs"
  proof (intro allI impI)
    fix s assume s: "register_each n xs ?r0 = Some (Ok s)"
    from register_each_calls[OF s assms(1) fresh] have
      c: "hook_calls (trace (reg_events s)) = register_calls xs"
      "fst ` set (reg_plugins s) = plugin_name ` set xs"
      by auto
    with assms(2) have "register n q s = Some (Threw (AlreadyRegistered (plugin_name q)) s)"
      by (simp add: register_def)
    with s have "register_each n (xs @ q # ys) ?r0
        = Some (Threw (AlreadyRegistered (plugin_name q)) s)"
      by (simp add: register_each_append)
    then have "Registry_new n (xs @ q # ys) = Some (Threw (AlreadyRegistered (plugin_name q)) s)"
      by (simp add: Registry_new_def)
    with c(1) show "Registry_new n (xs @ q # ys) = Some (Threw (AlreadyRegistered (plugin_name q)) s)
            \<and> hook_calls (trace (reg_events s)) = register_calls xs"
      by blast
  qed
  have 4: "(\<forall>p \<in> set xs. register_hook p = None \<or> register_hook p = Some []) \<longrightarrow>
              (\<exists>r. Registry_new n (xs @ q # ys)
                      = Some (Threw (AlreadyRegistered (plugin_name q)) r)
                  \<and> hook_calls (trace (reg_events r)) = register_calls xs)"
  proof
    assume "\<forall>p \<in> set xs. register_hook p = None \<or> register_hook p = Some []"
    from register_each_passive[OF this assms(1) fresh, of n] obtain s where
      s: "register_each n xs ?r0 = Some (Ok s)" by blast
    with 3 show "\<exists>r. Registry_new n (xs @ q # ys)
                      = Some (Threw (AlreadyRegistered (plugin_name q)) r)
                  \<and> hook_calls (trace (reg_events r)) = register_calls xs"
      by blast
  qed
  from 1 2 3 4 show ?thesis by blast
qed

theorem duplicate_name_aborts_registration_witness:
  "distinct (map plugin_name [subscriber_plugin])
   \<and> plugin_name subscriber_plugin \<in> plugin_name ` set [subscriber_plugin]
   \<and> (\<exists>s. register_each 1 [subscriber_plugin] \<lparr>reg_plugins = [], reg_events = new_Events\<rparr>
             = Some (Ok s)
         \<and> Registry_new 1 ([subscriber_plugin] @ subscriber_plugin # [])
             = Some (Threw (AlreadyRegistered ''sub'') s)
         \<and> hook_calls (trace (reg_events s)) = [RegisterCalled ''sub'']
         \<and> listeners (get_entry (reg_events s) ''core.initialized'') = [Listener 1 []])"
proof -
  let ?r0 = "\<lparr>reg_plugins = [], reg_events = new_Events\<rparr>"
  have d: "distinct (map plugin_name [subscriber_plugin])" by simp
  have m: "plugin_name subscriber_plugin \<in> plugin_name ` set [subscriber_plugin]" by simp
  have n: "plugin_name subscriber_plugin = ''sub''" and h: "register_hook subscriber_plugin \<noteq> None"
    by (simp_all add: subscriber_plugin_def)
  have "\<exists>s. register_each 1 [subscriber_plugin] ?r0 = Some (Ok s)
      \<and> listeners (get_entry (reg_events s) ''core.initialized'') = [Listener 1 []]"
    by (simp add: register_def run_hook_def with_events_def subscriber_plugin_def on.simps
          checkConditionalTriggers.simps push_listener_def log_effect_def get_entry_def
          new_Events_def)
  then obtain s where s: "register_each 1 [subscriber_plugin] ?r0 = Some (Ok s)"
    "listeners (get_entry (reg_events s) ''core.initialized'') = [Listener 1 []]" by blast
  from duplicate_name_aborts_registration[OF d m, of 1 "[]"] s(1)
  have "Registry_new 1 ([subscriber_plugin] @ subscriber_plugin # [])
             = Some (Threw (AlreadyRegistered (plugin_name subscriber_plugin)) s)
         \<and> hook_calls (trace (reg_events s)) = register_calls [subscriber_plugin]"
    by blast
  then have "Registry_new 1 ([subscriber_plugin] @ subscriber_plugin # [])
             = Some (Threw (AlreadyRegistered ''sub'') s)
         \<and> hook_calls (trace (reg_events s)) = [RegisterCalled ''sub'']"
    using h by (simp add: n)
  with d m s show ?thesis by blast
qed









end
